theory Spec2Isabelle
  imports Complex_Main "HOL-Library.Multiset" "HOL-Library.Sublist"
begin

section \<open>JavaScript values\<close>

text \<open>
  Front-matter attributes, configs and documents are plain JavaScript objects. A value
  is \<open>undefined\<close>, \<open>null\<close>, a boolean, a number, a string, an array or an object.
  An array is the list of its elements. An object is the list of its own properties in
  the order in which they were created. Numbers are the integers; the functions below
  do no arithmetic on the numbers held in values.
\<close>

datatype jsval =
    JUndefined
  | JNull
  | JBool bool
  | JNum int
  | JStr string
  | JArr "jsval list"
  | JObj "(string \<times> jsval) list"

type_synonym jsobj = "(string \<times> jsval) list"

text \<open>
  What the code throws: \<open>new Error(message)\<close>, the generic error of the language, and
  the \<open>TypeError\<close> of the runtime when a value that is not a function is called.
\<close>

datatype error = Error string | TypeError string

text \<open>The names under which a plain object inherits a member from \<open>Object.prototype\<close>.\<close>

definition object_prototype_names :: "string list" where
  "object_prototype_names =
     [''constructor'', ''__defineGetter__'', ''__defineSetter__'', ''hasOwnProperty'',
      ''__lookupGetter__'', ''__lookupSetter__'', ''isPrototypeOf'', ''propertyIsEnumerable'',
      ''toString'', ''valueOf'', ''__proto__'', ''toLocaleString'']"

text \<open>The value of an own property, \<open>undefined\<close> when the object has none under the key.\<close>

fun obj_get :: "jsobj \<Rightarrow> string \<Rightarrow> jsval" where
  "obj_get [] k = JUndefined"
| "obj_get ((k', v) # kvs) k = (if k' = k then v else obj_get kvs k)"

text \<open>
  \<open>obj[key] = value\<close>: an existing property keeps its place, a new one goes last.
\<close>

fun obj_set :: "(string \<times> 'v) list \<Rightarrow> string \<Rightarrow> 'v \<Rightarrow> (string \<times> 'v) list" where
  "obj_set [] k v = [(k, v)]"
| "obj_set ((k', v') # kvs) k v =
     (if k' = k then (k, v) # kvs else (k', v') # obj_set kvs k v)"

definition obj_keys :: "(string \<times> 'v) list \<Rightarrow> string list" where
  "obj_keys kvs = map fst kvs"

text \<open>
  What \<open>obj[key]\<close> reads on a plain object: the value of the own property under the
  key; where the object has none, the member that every plain object inherits from
  \<open>Object.prototype\<close> under a key that names one (a built-in function such as
  \<open>toString\<close> or \<open>constructor\<close>, and under \<open>__proto__\<close> the prototype itself);
  and \<open>undefined\<close> under any other key.
\<close>

datatype jsread = Value jsval | Member string

definition js_get :: "jsobj \<Rightarrow> string \<Rightarrow> jsread" where
  "js_get ob k =
     (if k \<in> set (obj_keys ob) then Value (obj_get ob k)
      else if k \<in> set object_prototype_names then Member k
      else Value JUndefined)"

section \<open>Strings\<close>

text \<open>The decimal digits of a number, as a template literal prints them.\<close>

definition digit_char :: "nat \<Rightarrow> char" where
  "digit_char d = ''0123456789'' ! d"

function show_nat :: "nat \<Rightarrow> string" where
  "show_nat n = (if n < 10 then [digit_char n] else show_nat (n div 10) @ [digit_char (n mod 10)])"
  by pat_completeness auto
termination
  by (relation "measure id") auto

declare show_nat.simps [simp del]

definition show_int :: "int \<Rightarrow> string" where
  "show_int i = (if i < 0 then CHR ''-'' # show_nat (nat (- i)) else show_nat (nat i))"

text \<open>
  \<open>s.replace(/suffix$/, '')\<close> and \<open>s.replace(/^prefix/, '')\<close> for a literal suffix or
  prefix: the text is removed when the string ends (starts) with it.
\<close>

definition ends_with :: "string \<Rightarrow> string \<Rightarrow> bool" where
  "ends_with s suf = (length suf \<le> length s \<and> drop (length s - length suf) s = suf)"

definition strip_suffix :: "string \<Rightarrow> string \<Rightarrow> string" where
  "strip_suffix suf s = (if ends_with s suf then take (length s - length suf) s else s)"

definition strip_prefix :: "string \<Rightarrow> string \<Rightarrow> string" where
  "strip_prefix pre s = (if take (length pre) s = pre then drop (length pre) s else s)"

section \<open>File names\<close>

text \<open>The class \<open>\w\<close> of a regular expression: letters, digits and the underscore.\<close>

definition is_word_char :: "char \<Rightarrow> bool" where
  "is_word_char c =
     (let n = (of_char c :: nat)
      in (48 \<le> n \<and> n \<le> 57) \<or> (65 \<le> n \<and> n \<le> 90) \<or> (97 \<le> n \<and> n \<le> 122) \<or> n = 95)"

text \<open>
  Modelled from the spec: \<open>removeExtension\<close> is imported from \<open>./util\<close>, which is not
  among the sources. The spec says it strips the file extension; the extension is taken
  to be the last dot of the name together with the non-empty run of word characters
  that ends the name. A name that does not end so is returned as it is.
\<close>

definition removeExtension :: "string \<Rightarrow> string" where
  "removeExtension filename =
     (let r = rev filename; ext = takeWhile is_word_char r; rest = dropWhile is_word_char r
      in if ext \<noteq> [] \<and> rest \<noteq> [] \<and> hd rest = CHR ''.'' then rev (tl rest) else filename)"

text \<open>
  Modelled from the spec: \<open>getExtension\<close> is imported from \<open>./util\<close>, which is not among
  the sources. The spec selects a renderer by the file extension of the path: the run
  of word characters after the last dot, empty when the name has no extension.
\<close>

definition getExtension :: "string \<Rightarrow> string" where
  "getExtension filename =
     (let r = rev filename; ext = takeWhile is_word_char r; rest = dropWhile is_word_char r
      in if ext \<noteq> [] \<and> rest \<noteq> [] \<and> hd rest = CHR ''.'' then rev ext else [])"

section \<open>URL of a source file\<close>

definition filepathToUrl :: "string \<Rightarrow> string" where
  "filepathToUrl filepath =
     (let url = ''/'' @ removeExtension filepath;
          url = strip_suffix ''/index'' url
      in if url = [] then ''/'' else url)"

section \<open>Pagination\<close>

text \<open>
  The options of \<open>paginate\<close> are destructured from the options object, each
  \<open>undefined\<close> (here \<open>None\<close>) when the object does not have it. \<open>urlPrefix\<close>
  and \<open>layout\<close> are strings, \<open>documentsPerPage\<close> is a count. A missing option, the
  empty string and the number 0 are falsy: \<open>truthy_string\<close> and \<open>truthy_number\<close>
  give the value of an option exactly when \<open>!option\<close> is false.
\<close>

definition truthy_string :: "string option \<Rightarrow> string option" where
  "truthy_string v = (case v of None \<Rightarrow> None | Some s \<Rightarrow> if s = [] then None else Some s)"

definition truthy_number :: "nat option \<Rightarrow> nat option" where
  "truthy_number v = (case v of None \<Rightarrow> None | Some n \<Rightarrow> if n = 0 then None else Some n)"

definition falsy_string :: "string option \<Rightarrow> bool" where
  "falsy_string v = (truthy_string v = None)"

definition falsy_number :: "nat option \<Rightarrow> bool" where
  "falsy_number v = (truthy_number v = None)"

definition not_specified :: "string \<Rightarrow> error" where
  "not_specified name =
     Error ([CHR 0x22] @ name @ [CHR 0x22] @ '' not specified for paginate().'')"

record 'docs page =
  previousUrl :: "string option"
  nextUrl :: "string option"
  sourcePath :: string
  documents :: 'docs
  layout :: string
  url :: string

definition getPageNumberUrl :: "string \<Rightarrow> nat \<Rightarrow> string" where
  "getPageNumberUrl urlPrefix pageNumber = urlPrefix @ ''/page/'' @ show_nat pageNumber"

text \<open>\<open>xs.slice(begin, end)\<close> for indices that are not negative.\<close>

definition js_slice :: "'a list \<Rightarrow> nat \<Rightarrow> nat \<Rightarrow> 'a list" where
  "js_slice xs b e = take (e - b) (drop b xs)"

text \<open>
  \<open>Math.ceil(documents.length / documentsPerPage)\<close>, on the exact quotient; the
  division is only reached with a divisor that is not 0.
\<close>

definition total_pages :: "nat \<Rightarrow> nat \<Rightarrow> nat" where
  "total_pages n k = nat \<lceil>real n / real k\<rceil>"

definition paginate ::
  "'d list \<Rightarrow> string option \<Rightarrow> nat option \<Rightarrow> string option \<Rightarrow> error + 'd list page list" where
  "paginate docs urlPrefix documentsPerPage lay =
     (case truthy_string urlPrefix of
        None \<Rightarrow> Inl (not_specified ''urlPrefix'')
      | Some pre \<Rightarrow>
     (case truthy_number documentsPerPage of
        None \<Rightarrow> Inl (not_specified ''documentsPerPage'')
      | Some perPage \<Rightarrow>
     (case truthy_string lay of
        None \<Rightarrow> Inl (not_specified ''layout'')
      | Some lay' \<Rightarrow>
          (let totalPages = total_pages (length docs) perPage
           in Inr (map (\<lambda>pageNumber.
                  let pageNumber = pageNumber + 1;
                      u = getPageNumberUrl pre pageNumber;
                      begin = (pageNumber - 1) * perPage
                  in \<lparr> previousUrl =
                         (if pageNumber > 1 then Some (getPageNumberUrl pre (pageNumber - 1))
                          else None),
                       nextUrl =
                         (if pageNumber < totalPages
                          then Some (getPageNumberUrl pre (pageNumber + 1)) else None),
                       sourcePath = strip_prefix ''/'' u,
                       documents = js_slice docs begin (begin + perPage),
                       layout = lay',
                       url = u \<rparr>)
                [0..<totalPages])))))"

section \<open>Deep merge\<close>

text \<open>
  A property key that is an array index: the decimal digits, with no leading zero, of a
  number below \<open>2^32 - 1\<close>.
\<close>

definition digits_value :: "string \<Rightarrow> nat" where
  "digits_value k = foldl (\<lambda>n c. 10 * n + (of_char c - 48)) 0 k"

definition key_index :: "string \<Rightarrow> nat option" where
  "key_index k =
     (if k \<noteq> [] \<and> list_all (\<lambda>c. c \<in> set ''0123456789'') k \<and> (k = ''0'' \<or> hd k \<noteq> CHR ''0'')
         \<and> digits_value k < 4294967295
      then Some (digits_value k) else None)"

text \<open>
  Reading and writing an element of an array by index: past the end \<open>undefined\<close> is
  read, and a write makes the array longer, the elements in between being
  \<open>undefined\<close>.
\<close>

definition array_get :: "jsval list \<Rightarrow> nat \<Rightarrow> jsval" where
  "array_get xs i = (if i < length xs then xs ! i else JUndefined)"

definition array_set :: "jsval list \<Rightarrow> nat \<Rightarrow> jsval \<Rightarrow> jsval list" where
  "array_set xs i v =
     (if i < length xs then xs[i := v]
      else xs @ replicate (i - length xs) JUndefined @ [v])"

text \<open>
  The elements of an array-like object, one that has a \<open>length\<close> that is a number from
  0 to \<open>2^32 - 1\<close>: its properties under the indices below the length. Any other
  object has none.
\<close>

definition array_like :: "jsobj \<Rightarrow> jsval list" where
  "array_like ob =
     (case obj_get ob ''length'' of
        JNum n \<Rightarrow>
          if 0 \<le> n \<and> n \<le> 4294967295 then map (\<lambda>i. obj_get ob (show_nat i)) [0..<nat n]
          else []
      | _ \<Rightarrow> [])"

text \<open>
  \<open>_.merge\<close> is lodash's, a dependency of the package and not part of its sources; this
  is its behaviour on the values above. The own properties of the source are merged
  into the destination one after the other; \<open>merge_value objValue srcValue\<close> is the
  value that a property holding \<open>objValue\<close> has after \<open>srcValue\<close> is merged into it.

  \<^item> A source property that is \<open>undefined\<close> leaves the destination's value as it is.
    Where the destination has no such property, one holding \<open>undefined\<close> is made,
    unless the destination inherits a member under that name.

  \<^item> A source array is merged index by index into the destination's array; into the
    elements of the destination's array-like object; into a new array when the
    destination holds neither.

  \<^item> A source object is merged into the destination's object, and into a new object
    when the destination holds neither an object nor an array. Where the destination
    holds an array, the properties of the source are written to that array: one whose
    key is an array index is merged into the element at that index; one under any
    other key becomes a named property of the array, which is not among its elements.

  \<^item> Any other source value (\<open>null\<close>, a boolean, a number, a string) is assigned
    over the destination's.
\<close>

fun merge_value :: "jsval \<Rightarrow> jsval \<Rightarrow> jsval"
  and merge_object :: "jsobj \<Rightarrow> jsobj \<Rightarrow> jsobj"
  and merge_array :: "jsval list \<Rightarrow> jsval list \<Rightarrow> jsval list"
  and merge_elements :: "jsval list \<Rightarrow> jsobj \<Rightarrow> jsval list" where
  "merge_value objValue JUndefined = objValue"
| "merge_value objValue (JArr src) =
     JArr (merge_array
            (case objValue of JArr dst \<Rightarrow> dst | JObj dst \<Rightarrow> array_like dst | _ \<Rightarrow> [])
            src)"
| "merge_value objValue (JObj src) =
     (case objValue of
        JObj dst \<Rightarrow> JObj (merge_object dst src)
      | JArr dst \<Rightarrow> JArr (merge_elements dst src)
      | _ \<Rightarrow> JObj (merge_object [] src))"
| "merge_value objValue srcValue = srcValue"
| "merge_object dst [] = dst"
| "merge_object dst ((key, srcValue) # src) =
     merge_object
       (if srcValue = JUndefined \<and> key \<notin> set (obj_keys dst) \<and> key \<in> set object_prototype_names
        then dst
        else obj_set dst key (merge_value (obj_get dst key) srcValue))
       src"
| "merge_array dst [] = dst"
| "merge_array [] (srcValue # src) = merge_value JUndefined srcValue # merge_array [] src"
| "merge_array (objValue # dst) (srcValue # src) =
     merge_value objValue srcValue # merge_array dst src"
| "merge_elements dst [] = dst"
| "merge_elements dst ((key, srcValue) # src) =
     merge_elements
       (case key_index key of
          None \<Rightarrow> dst
        | Some i \<Rightarrow> array_set dst i (merge_value (array_get dst i) srcValue))
       src"

text \<open>\<open>_.merge(object, source1, source2, ...)\<close>: the sources from left to right.\<close>

definition lodash_merge :: "jsobj \<Rightarrow> jsobj list \<Rightarrow> jsobj" where
  "lodash_merge object sources = fold (\<lambda>source dst. merge_object dst source) sources object"

section \<open>Configs\<close>

text \<open>
  The config files are found by \<open>glob.sync\<close> and read by \<open>readYamlFile\<close> (of
  \<open>./util\<close>); both reach the file system and are parameters here. \<open>readYamlFile\<close>
  gives the mapping of a file or throws. \<open>path_join\<close> and \<open>basename\<close> are
  \<open>path.join\<close> and \<open>path.basename\<close> for a folder written without a trailing slash
  and a path that names a file.
\<close>

definition path_join :: "string \<Rightarrow> string \<Rightarrow> string" where
  "path_join folder name = folder @ ''/'' @ name"

definition basename :: "string \<Rightarrow> string" where
  "basename filepath = rev (takeWhile (\<lambda>c. c \<noteq> CHR ''/'') (rev filepath))"

definition getConfigFilesList :: "(string \<Rightarrow> string list) \<Rightarrow> string \<Rightarrow> string list" where
  "getConfigFilesList glob_sync folder = glob_sync (path_join folder ''*.yml'')"

record configs =
  base :: jsobj
  langs :: "(string \<times> jsobj) list"

text \<open>
  The callback of \<open>files.reduce\<close>. The assignment \<open>configs.langs[name] = ...\<close> makes
  a property of \<open>langs\<close> under every name but \<open>__proto__\<close>: under that name it
  replaces the prototype of \<open>langs\<close> and makes no property, and neither
  \<open>Object.keys\<close> nor \<open>_.isEmpty\<close> in \<open>mergeConfigs\<close> looks at the prototype.
\<close>

fun readConfigFiles_from ::
  "(string \<Rightarrow> error + jsobj) \<Rightarrow> configs \<Rightarrow> string list \<Rightarrow> error + configs" where
  "readConfigFiles_from readYamlFile cfg [] = Inr cfg"
| "readConfigFiles_from readYamlFile cfg (filepath # files) =
     (let name = removeExtension (basename filepath)
      in case readYamlFile filepath of
           Inl e \<Rightarrow> Inl e
         | Inr yaml \<Rightarrow>
             if name = ''base''
             then readConfigFiles_from readYamlFile (cfg\<lparr>base := yaml\<rparr>) files
             else if name = ''__proto__''
             then readConfigFiles_from readYamlFile cfg files
             else readConfigFiles_from readYamlFile (cfg\<lparr>langs := obj_set (langs cfg) name yaml\<rparr>) files)"

definition readConfigFiles :: "(string \<Rightarrow> error + jsobj) \<Rightarrow> string list \<Rightarrow> error + configs" where
  "readConfigFiles readYamlFile files =
     readConfigFiles_from readYamlFile \<lparr>base = [], langs = []\<rparr> files"

definition mergeConfigs :: "configs \<Rightarrow> jsobj" where
  "mergeConfigs cfg =
     (let baseConfig = [(''base'', JObj (base cfg))]
      in if langs cfg = [] then baseConfig
         else fold (\<lambda>(lang, overlay) merged.
                 obj_set merged lang (JObj (lodash_merge [] [base cfg, overlay])))
               (langs cfg) baseConfig)"

definition loadConfig ::
  "(string \<Rightarrow> string list) \<Rightarrow> (string \<Rightarrow> error + jsobj) \<Rightarrow> string \<Rightarrow> error + jsobj" where
  "loadConfig glob_sync readYamlFile folder =
     (let files = getConfigFilesList glob_sync folder
      in case readConfigFiles readYamlFile files of
           Inl e \<Rightarrow> Inl e
         | Inr cfg \<Rightarrow> Inr (mergeConfigs cfg))"

text \<open>The values that are not \<open>undefined\<close>, arrays or objects.\<close>

definition is_primitive :: "jsval \<Rightarrow> bool" where
  "is_primitive v =
     (case v of JNull \<Rightarrow> True | JBool _ \<Rightarrow> True | JNum _ \<Rightarrow> True | JStr _ \<Rightarrow> True | _ \<Rightarrow> False)"

text \<open>
  The values that a YAML file holds: \<open>null\<close>, booleans, numbers, strings, and
  sequences and mappings of such values, a mapping having every key once. The keys that
  name a member that objects inherit from \<open>Object.prototype\<close> are left out: what
  \<open>_.merge\<close> reads and writes under such a key depends on the member and on the
  version of lodash.
\<close>

fun yaml_value :: "jsval \<Rightarrow> bool" where
  "yaml_value JUndefined = False"
| "yaml_value (JArr vs) = list_all yaml_value vs"
| "yaml_value (JObj kvs) =
     (distinct (map fst kvs)
      \<and> list_all (\<lambda>kv. fst kv \<notin> set object_prototype_names \<and> yaml_value (snd kv)) kvs)"
| "yaml_value v = True"

text \<open>
  A configs folder with \<open>base.yml\<close> holding \<open>{theme: "x"}\<close> and \<open>en.yml\<close> holding
  \<open>{title: "Hi"}\<close>.
\<close>

definition example_glob :: "string \<Rightarrow> string list" where
  "example_glob pattern =
     (if pattern = ''config/*.yml'' then [''config/base.yml'', ''config/en.yml''] else [])"

definition example_yaml :: "string \<Rightarrow> error + jsobj" where
  "example_yaml filepath =
     (if filepath = ''config/base.yml'' then Inr [(''theme'', JStr ''x'')]
      else if filepath = ''config/en.yml'' then Inr [(''title'', JStr ''Hi'')]
      else Inl (Error ''ENOENT''))"

text \<open>
  A configs folder with a base config and a German overlay that share the keys
  \<open>title\<close>, \<open>menu\<close> and \<open>tags\<close>.
\<close>

definition site_glob :: "string \<Rightarrow> string list" where
  "site_glob pattern =
     (if pattern = ''site/*.yml'' then [''site/base.yml'', ''site/de.yml''] else [])"

definition site_base :: jsobj where
  "site_base =
     [(''theme'', JStr ''x''),
      (''title'', JStr ''Base''),
      (''menu'', JObj [(''home'', JStr ''Home''), (''about'', JStr ''About'')]),
      (''tags'', JArr [JNum 1, JNum 2, JNum 3])]"

definition site_de :: jsobj where
  "site_de =
     [(''title'', JStr ''Hallo''),
      (''menu'', JObj [(''home'', JStr ''Start'')]),
      (''tags'', JArr [JNum 7]),
      (''lang'', JStr ''de'')]"

definition site_yaml :: "string \<Rightarrow> error + jsobj" where
  "site_yaml filepath =
     (if filepath = ''site/base.yml'' then Inr site_base
      else if filepath = ''site/de.yml'' then Inr site_de
      else Inl (Error ''ENOENT''))"

section \<open>Parsing a page\<close>

text \<open>
  \<open>s.split(separator)\<close> for a non-empty separator string: the pieces of \<open>s\<close> between
  the occurrences of the separator, found from left to right; \<open>piece\<close> holds the
  current piece in reverse.
\<close>

function split_from :: "string \<Rightarrow> string \<Rightarrow> string \<Rightarrow> string list" where
  "split_from sep piece [] = [rev piece]"
| "split_from sep piece (c # s) =
     (if sep \<noteq> [] \<and> take (length sep) (c # s) = sep
      then rev piece # split_from sep [] (drop (length sep) (c # s))
      else split_from sep (c # piece) s)"
  by pat_completeness auto
termination
  by (relation "measure (\<lambda>(sep, piece, s). length s)") auto

definition js_split :: "string \<Rightarrow> string \<Rightarrow> string list" where
  "js_split sep s = split_from sep [] s"

text \<open>
  An element of an array of strings by index, as destructuring reads it: \<open>undefined\<close>
  past the end.
\<close>

definition str_at :: "string list \<Rightarrow> nat \<Rightarrow> jsval" where
  "str_at xs i = (if i < length xs then JStr (xs ! i) else JUndefined)"

text \<open>
  A renderer takes the source text to the rendered text; a field parser takes what
  \<open>attributes[name]\<close> reads (\<open>undefined\<close> when the front matter has no such field
  and the name is not an inherited one) to the parsed value. Both are the caller's
  functions and may throw.
\<close>

type_synonym renderer = "string \<Rightarrow> error + string"
type_synonym field_parser = "jsread \<Rightarrow> error + jsval"

definition renderByType ::
  "string \<Rightarrow> string \<Rightarrow> (string \<times> renderer) list \<Rightarrow> error + string" where
  "renderByType source filepath renderers =
     (let extension = getExtension filepath
      in case map_of renderers extension of
           Some render \<Rightarrow> render source
         | None \<Rightarrow> Inr source)"

fun parseCustomFields_loop ::
  "jsobj \<Rightarrow> jsobj \<Rightarrow> (string \<times> field_parser) list \<Rightarrow> error + jsobj" where
  "parseCustomFields_loop attributes parsedAttributes [] = Inr parsedAttributes"
| "parseCustomFields_loop attributes parsedAttributes ((name, parse) # fieldParsers) =
     (case parse (js_get attributes name) of
        Inl e \<Rightarrow> Inl e
      | Inr v \<Rightarrow>
          parseCustomFields_loop attributes (obj_set parsedAttributes name v) fieldParsers)"

definition parseCustomFields ::
  "jsobj \<Rightarrow> (string \<times> field_parser) list \<Rightarrow> error + jsobj" where
  "parseCustomFields attributes fieldParsers =
     (case parseCustomFields_loop attributes [] fieldParsers of
        Inl e \<Rightarrow> Inl e
      | Inr parsedAttributes \<Rightarrow> Inr (lodash_merge [] [attributes, parsedAttributes]))"

text \<open>
  The cut: \<open>let excerpt, more; if (cutTag) { [excerpt, more] = content.split(cutTag); }\<close>.
  Both stay \<open>undefined\<close> when \<open>cutTag\<close> is missing or empty.
\<close>

definition cut_content :: "string option \<Rightarrow> string \<Rightarrow> jsval \<times> jsval" where
  "cut_content cutTag content =
     (case truthy_string cutTag of
        Some tag \<Rightarrow> (let pieces = js_split tag content in (str_at pieces 0, str_at pieces 1))
      | None \<Rightarrow> (JUndefined, JUndefined))"

text \<open>
  \<open>fastmatter\<close> is the front-matter splitter, a dependency of the package: it gives the
  attributes and the body of a source text, or throws. The options \<open>renderers\<close> and
  \<open>fieldParsers\<close> default to \<open>{}\<close>; \<open>cutTag\<close> is a string or missing.
\<close>

definition parsePage ::
  "(string \<Rightarrow> error + jsobj \<times> string) \<Rightarrow> string \<Rightarrow> string \<Rightarrow> string \<Rightarrow>
   (string \<times> renderer) list \<Rightarrow> (string \<times> field_parser) list \<Rightarrow> string option \<Rightarrow>
   error + jsobj" where
  "parsePage fastmatter source folder filepath renderers fieldParsers cutTag =
     (case fastmatter source of
        Inl e \<Rightarrow> Inl e
      | Inr (attributes, body) \<Rightarrow>
     (case parseCustomFields attributes fieldParsers of
        Inl e \<Rightarrow> Inl e
      | Inr attributes \<Rightarrow>
     (let u = filepathToUrl filepath
      in case renderByType body filepath renderers of
           Inl e \<Rightarrow> Inl e
         | Inr content \<Rightarrow>
             (let (excerpt, more) = cut_content cutTag content
              in Inr (lodash_merge attributes
                        [[(''sourcePath'', JStr filepath),
                          (''content'', JStr content),
                          (''excerpt'', excerpt),
                          (''more'', more),
                          (''url'', JStr u)]])))))"

text \<open>
  Stand-ins for the caller's functions in the examples: two splitters that take the
  whole text as the body, the first finding the attribute \<open>title\<close> in every source
  and the second the attributes \<open>title\<close> and \<open>more\<close>, and a field parser that
  throws.
\<close>

definition example_fastmatter :: "string \<Rightarrow> error + jsobj \<times> string" where
  "example_fastmatter source = Inr ([(''title'', JStr ''Post'')], source)"

definition example_fastmatter_more :: "string \<Rightarrow> error + jsobj \<times> string" where
  "example_fastmatter_more source =
     Inr ([(''title'', JStr ''Post''), (''more'', JStr ''Read on'')], source)"

definition failing_parser :: field_parser where
  "failing_parser raw = Inl (Error ''Invalid date'')"

definition title_parser :: field_parser where
  "title_parser raw =
     (case raw of Value (JStr s) \<Rightarrow> Inr (JStr (''Title: '' @ s)) | _ \<Rightarrow> Inr JUndefined)"

section \<open>Queries over documents\<close>

text \<open>
  \<open>String(value)\<close>, the conversion applied where a value is used as a property key or
  is tested by a regular expression. An array gives its elements joined by commas, with
  nothing for \<open>null\<close> and \<open>undefined\<close> elements, the elements being converted from
  left to right. An object gives \<open>[object Object]\<close>, what the \<open>toString\<close> that it
  inherits returns; an object with a property \<open>toString\<close> of its own has no string
  form, since that property holds no function and \<open>valueOf\<close> gives no primitive value:
  the conversion throws a \<open>TypeError\<close>.
\<close>

fun join_with :: "string \<Rightarrow> string list \<Rightarrow> string" where
  "join_with sep [] = []"
| "join_with sep [x] = x"
| "join_with sep (x # y # ys) = x @ sep @ join_with sep (y # ys)"

definition to_primitive_error :: error where
  "to_primitive_error = TypeError ''Cannot convert object to primitive value''"

fun js_to_string :: "jsval \<Rightarrow> error + string"
  and elements_to_strings :: "jsval list \<Rightarrow> error + string list" where
  "js_to_string JUndefined = Inr ''undefined''"
| "js_to_string JNull = Inr ''null''"
| "js_to_string (JBool b) = Inr (if b then ''true'' else ''false'')"
| "js_to_string (JNum n) = Inr (show_int n)"
| "js_to_string (JStr s) = Inr s"
| "js_to_string (JArr vs) =
     (case elements_to_strings vs of
        Inl e \<Rightarrow> Inl e
      | Inr strings \<Rightarrow> Inr (join_with '','' strings))"
| "js_to_string (JObj kvs) =
     (if ''toString'' \<in> set (obj_keys kvs) then Inl to_primitive_error
      else Inr ''[object Object]'')"
| "elements_to_strings [] = Inr []"
| "elements_to_strings (v # vs) =
     (case (if v = JUndefined \<or> v = JNull then Inr [] else js_to_string v) of
        Inl e \<Rightarrow> Inl e
      | Inr s \<Rightarrow>
          (case elements_to_strings vs of
             Inl e \<Rightarrow> Inl e
           | Inr strings \<Rightarrow> Inr (s # strings)))"

text \<open>
  The string form of what \<open>obj[key]\<close> reads. An inherited function gives the text of
  a built-in function, which has the name of the property, but \<open>Object\<close> for the
  function under \<open>constructor\<close>; the prototype found under \<open>__proto__\<close> gives
  \<open>[object Object]\<close>.
\<close>

definition read_to_string :: "jsread \<Rightarrow> error + string" where
  "read_to_string value =
     (case value of
        Value v \<Rightarrow> js_to_string v
      | Member name \<Rightarrow>
          Inr (if name = ''__proto__'' then ''[object Object]''
               else ''function '' @ (if name = ''constructor'' then ''Object'' else name)
                    @ ''() { [native code] }''))"

text \<open>
  \<open>documentValue !== value\<close> is the negation of this. Primitive values are compared
  by value. Arrays, objects and inherited members are compared by identity: a value of
  the criteria is the caller's own array or object, never the very one that a document
  holds or inherits, so the comparison is false for them.
\<close>

definition strict_eq :: "jsread \<Rightarrow> jsval \<Rightarrow> bool" where
  "strict_eq a b =
     (case a of
        Value (JArr _) \<Rightarrow> False
      | Value (JObj _) \<Rightarrow> False
      | Value v \<Rightarrow> v = b
      | Member _ \<Rightarrow> False)"

text \<open>
  A regular expression is an object. \<open>match_from re s i\<close> is the end of the match
  that the expression finds in the string \<open>s\<close> when matching begins at the index
  \<open>i\<close>, and \<open>None\<close> when it finds none there. An expression with the flag \<open>g\<close> or
  \<open>y\<close> keeps in \<open>lastIndex\<close> the index at which its next match begins: \<open>test\<close>
  begins there, sets \<open>lastIndex\<close> to the end of the match it finds and to 0 when it
  finds none. Without these flags \<open>test\<close> begins at 0 and leaves \<open>lastIndex\<close> as it
  is.
\<close>

record regexp =
  match_from :: "string \<Rightarrow> nat \<Rightarrow> nat option"
  global_or_sticky :: bool

definition regexp_test :: "regexp \<Rightarrow> string \<Rightarrow> nat \<Rightarrow> bool \<times> nat" where
  "regexp_test re s lastIndex =
     (if global_or_sticky re
      then (if length s < lastIndex then (False, 0)
            else case match_from re s lastIndex of
                   None \<Rightarrow> (False, 0)
                 | Some e \<Rightarrow> (True, e))
      else (case match_from re s 0 of
              None \<Rightarrow> (False, lastIndex)
            | Some e \<Rightarrow> (True, lastIndex)))"

text \<open>
  A criterion of \<open>filterDocuments\<close> is a value to be equal to, or a regular expression.
  The expression is the caller's object, known by a number; the \<open>lastIndex\<close> of every
  such object is held in a table, which \<open>filterDocuments\<close> takes and gives back as the
  calls of \<open>test\<close> leave it.
\<close>

datatype criterion = Exact jsval | Pattern regexp nat

text \<open>
  The callback of \<open>documents.filter\<close>: the loop over the criteria, in the order in
  which \<open>for ... in\<close> visits them. \<open>value.test(documentValue)\<close> converts the
  document's value to a string before it matches, and throws when the value has no
  string form.
\<close>

fun matches ::
  "jsobj \<Rightarrow> (string \<times> criterion) list \<Rightarrow> (nat \<Rightarrow> nat) \<Rightarrow> (error + bool) \<times> (nat \<Rightarrow> nat)" where
  "matches document [] lastIndex = (Inr True, lastIndex)"
| "matches document ((field, value) # fields') lastIndex =
     (let documentValue = js_get document field
      in case value of
           Pattern re r \<Rightarrow>
             (case read_to_string documentValue of
                Inl e \<Rightarrow> (Inl e, lastIndex)
              | Inr s \<Rightarrow>
                  (let (found, i) = regexp_test re s (lastIndex r);
                       lastIndex = lastIndex(r := i)
                   in if \<not> found then (Inr False, lastIndex)
                      else matches document fields' lastIndex))
         | Exact v \<Rightarrow>
             if \<not> strict_eq documentValue v then (Inr False, lastIndex)
             else matches document fields' lastIndex)"

text \<open>
  \<open>documents.filter(callback)\<close> calls the callback on the documents from first to
  last and gives the documents for which it returned \<open>true\<close>, or throws what the
  callback throws.
\<close>

fun filterDocuments ::
  "jsobj list \<Rightarrow> (string \<times> criterion) list \<Rightarrow> (nat \<Rightarrow> nat) \<Rightarrow>
   (error + jsobj list) \<times> (nat \<Rightarrow> nat)" where
  "filterDocuments [] fields' lastIndex = (Inr [], lastIndex)"
| "filterDocuments (document # docs) fields' lastIndex =
     (case matches document fields' lastIndex of
        (Inl e, lastIndex) \<Rightarrow> (Inl e, lastIndex)
      | (Inr keep, lastIndex) \<Rightarrow>
          (case filterDocuments docs fields' lastIndex of
             (Inl e, lastIndex) \<Rightarrow> (Inl e, lastIndex)
           | (Inr kept, lastIndex) \<Rightarrow>
               (Inr (if keep then document # kept else kept), lastIndex)))"


text \<open>
  The groups are an object \<open>{}\<close> with a bucket per key. Reading \<open>grouped[key]\<close> finds
  the bucket of the key, or else what every object inherits under that name from
  \<open>Object.prototype\<close>, or else \<open>undefined\<close>. What is inherited is truthy and is no
  array: no bucket is made for such a key, and the call of \<open>push\<close> on it throws a
  \<open>TypeError\<close>.
\<close>

datatype 'b found = Bucket 'b | Inherited | Missing

definition group_get :: "(string \<times> 'b) list \<Rightarrow> string \<Rightarrow> 'b found" where
  "group_get grouped key =
     (case map_of grouped key of
        Some bucket \<Rightarrow> Bucket bucket
      | None \<Rightarrow> if key \<in> set object_prototype_names then Inherited else Missing)"

definition push_error :: error where
  "push_error = TypeError ''grouped[...].push is not a function''"

text \<open>
  \<open>if (!grouped[key]) { grouped[key] = []; } grouped[key].push(document);\<close>
\<close>

definition group_push ::
  "(string \<times> 'd list) list \<Rightarrow> string \<Rightarrow> 'd \<Rightarrow> error + (string \<times> 'd list) list" where
  "group_push grouped key document =
     (let grouped = (case group_get grouped key of Missing \<Rightarrow> obj_set grouped key [] | _ \<Rightarrow> grouped)
      in case group_get grouped key of
           Bucket bucket \<Rightarrow> Inr (obj_set grouped key (bucket @ [document]))
         | _ \<Rightarrow> Inl push_error)"

text \<open>
  The keys a document is filed under, \<open>value\<close> being \<open>document[field]\<close>: one per
  element of an array, else one. A value used as a property key is converted to a
  string when the property is read, which throws when the value has no string form.
\<close>

definition group_keys :: "jsobj \<Rightarrow> string \<Rightarrow> (error + string) list" where
  "group_keys document field =
     (case js_get document field of
        Value (JArr subValues) \<Rightarrow> map js_to_string subValues
      | value \<Rightarrow> [read_to_string value])"

fun group_push_all ::
  "(string \<times> 'd list) list \<Rightarrow> (error + string) list \<Rightarrow> 'd \<Rightarrow> error + (string \<times> 'd list) list" where
  "group_push_all grouped [] document = Inr grouped"
| "group_push_all grouped (key # keys) document =
     (case key of
        Inl e \<Rightarrow> Inl e
      | Inr key \<Rightarrow>
          (case group_push grouped key document of
             Inl e \<Rightarrow> Inl e
           | Inr grouped \<Rightarrow> group_push_all grouped keys document))"

fun gropDocuments_from ::
  "(string \<times> jsobj list) list \<Rightarrow> jsobj list \<Rightarrow> string \<Rightarrow> error + (string \<times> jsobj list) list" where
  "gropDocuments_from grouped [] field = Inr grouped"
| "gropDocuments_from grouped (document # docs) field =
     (case group_push_all grouped (group_keys document field) document of
        Inl e \<Rightarrow> Inl e
      | Inr grouped \<Rightarrow> gropDocuments_from grouped docs field)"

definition gropDocuments :: "jsobj list \<Rightarrow> string \<Rightarrow> error + (string \<times> jsobj list) list" where
  "gropDocuments docs field = gropDocuments_from [] docs field"

text \<open>Documents of the examples.\<close>

definition doc_tagged :: jsobj where
  "doc_tagged = [(''title'', JStr ''A''), (''tags'', JArr [JStr ''js'', JStr ''css''])]"

definition doc_scalar :: jsobj where
  "doc_scalar = [(''title'', JStr ''B''), (''tags'', JStr ''js'')]"

definition doc_plain :: jsobj where
  "doc_plain = [(''title'', JStr ''C'')]"

definition doc_draft :: jsobj where
  "doc_draft = [(''title'', JStr ''D'')]"

definition doc_untagged :: jsobj where
  "doc_untagged = [(''title'', JStr ''E''), (''tags'', JArr [])]"

definition doc_reserved :: jsobj where
  "doc_reserved = [(''title'', JStr ''F''), (''tags'', JStr ''toString'')]"

definition doc_unprintable :: jsobj where
  "doc_unprintable = [(''title'', JStr ''G''), (''tags'', JObj [(''toString'', JNum 1)])]"

text \<open>
  Regular expressions of the examples: \<open>/undef/\<close> and \<open>/undef/g\<close>. A match of a
  pattern that is plain text is the first place at or after the index where the text
  stands.
\<close>

definition find_literal :: "string \<Rightarrow> string \<Rightarrow> nat \<Rightarrow> nat option" where
  "find_literal pat s i =
     map_option (\<lambda>j. j + length pat)
       (List.find (\<lambda>j. take (length pat) (drop j s) = pat) [i..<Suc (length s)])"

definition regexp_undef :: regexp where
  "regexp_undef = \<lparr> match_from = find_literal ''undef'', global_or_sticky = False \<rparr>"

definition regexp_undef_g :: regexp where
  "regexp_undef_g = \<lparr> match_from = find_literal ''undef'', global_or_sticky = True \<rparr>"

text \<open>
  The criteria in which no regular expression has the flag \<open>g\<close> or \<open>y\<close>: testing
  them reads and writes no \<open>lastIndex\<close>.
\<close>

definition stateless :: "(string \<times> criterion) list \<Rightarrow> bool" where
  "stateless fields' =
     list_all (\<lambda>(field, value).
       case value of Exact v \<Rightarrow> True | Pattern re r \<Rightarrow> \<not> global_or_sticky re) fields'"

text \<open>The documents filed under a key: the bucket of the key, nothing when it has none.\<close>

definition bucket :: "(string \<times> 'd list) list \<Rightarrow> string \<Rightarrow> 'd list" where
  "bucket grouped key = (case map_of grouped key of Some b \<Rightarrow> b | None \<Rightarrow> [])"

text \<open>
  The invariant of the groups while documents are added: the keys are distinct, none
  is a name inherited from \<open>Object.prototype\<close>, and no bucket is empty.
\<close>

definition groups_inv :: "(string \<times> 'd list) list \<Rightarrow> bool" where
  "groups_inv g \<longleftrightarrow> distinct (obj_keys g)
     \<and> set (obj_keys g) \<inter> set object_prototype_names = {}
     \<and> (\<forall>k \<in> set (obj_keys g). bucket g k \<noteq> [])"

section \<open>Arrays in the store\<close>

text \<open>
  The queries receive the array of documents by reference. To say what they do to the
  arrays they are given, the arrays live in a store: a reference is a number, the
  store holds the elements of every array in use and the next unused reference. The
  documents themselves are values: no query writes to a document.
\<close>

type_synonym ref = nat

record 'd store =
  arrays :: "ref \<Rightarrow> 'd list option"
  next_ref :: ref

definition array_at :: "'d store \<Rightarrow> ref \<Rightarrow> 'd list" where
  "array_at s r = (case arrays s r of Some xs \<Rightarrow> xs | None \<Rightarrow> [])"

text \<open>A new array, as an array literal, \<open>filter\<close>, \<open>slice\<close> and lodash's sort make one.\<close>

definition new_array :: "'d list \<Rightarrow> 'd store \<Rightarrow> ref \<times> 'd store" where
  "new_array xs s =
     (next_ref s, s\<lparr>arrays := (arrays s)(next_ref s \<mapsto> xs), next_ref := Suc (next_ref s)\<rparr>)"



subsection \<open>The queries on references\<close>







text \<open>
  In \<open>paginate\<close> every page gets a new array from \<open>documents.slice\<close>; the pages are
  made one after the other.
\<close>

fun paginate_pages ::
  "ref \<Rightarrow> string \<Rightarrow> nat \<Rightarrow> string \<Rightarrow> nat \<Rightarrow> nat list \<Rightarrow> 'd store \<Rightarrow> ref page list \<times> 'd store" where
  "paginate_pages docs pre perPage lay totalPages [] s = ([], s)"
| "paginate_pages docs pre perPage lay totalPages (pageNumber # pageNumbers) s =
     (let pageNumber = pageNumber + 1;
          u = getPageNumberUrl pre pageNumber;
          begin = (pageNumber - 1) * perPage;
          (slice, s) = new_array (js_slice (array_at s docs) begin (begin + perPage)) s;
          page = \<lparr> previousUrl =
                     (if pageNumber > 1 then Some (getPageNumberUrl pre (pageNumber - 1))
                      else None),
                   nextUrl =
                     (if pageNumber < totalPages
                      then Some (getPageNumberUrl pre (pageNumber + 1)) else None),
                   sourcePath = strip_prefix ''/'' u,
                   documents = slice,
                   layout = lay,
                   url = u \<rparr>;
          (pages, s) = paginate_pages docs pre perPage lay totalPages pageNumbers s
      in (page # pages, s))"


subsection \<open>Reading results back from the store\<close>






section \<open>Properties\<close>

subsection \<open>File names and URLs\<close>

lemma takeWhile_stop: "\<forall>x \<in> set xs. P x \<Longrightarrow> \<not> P y \<Longrightarrow> takeWhile P (xs @ y # ys) = xs"
  by (induction xs) auto

lemma dropWhile_stop: "\<forall>x \<in> set xs. P x \<Longrightarrow> \<not> P y \<Longrightarrow> dropWhile P (xs @ y # ys) = y # ys"
  by (induction xs) auto

lemma removeExtension_dot:
  assumes "ext \<noteq> []" and "list_all is_word_char ext"
  shows "removeExtension (d @ ''.'' @ ext) = d"
proof -
  have w: "\<forall>c \<in> set (rev ext). is_word_char c"
    using assms(2) by (simp add: list_all_iff)
  have nw: "\<not> is_word_char CHR ''.''"
    by (simp add: is_word_char_def)
  have r: "rev (d @ ''.'' @ ext) = rev ext @ CHR ''.'' # rev d"
    by simp
  have t: "takeWhile is_word_char (rev ext @ CHR ''.'' # rev d) = rev ext"
    using w nw by (rule takeWhile_stop)
  have dr: "dropWhile is_word_char (rev ext @ CHR ''.'' # rev d) = CHR ''.'' # rev d"
    using w nw by (rule dropWhile_stop)
  show ?thesis
    unfolding removeExtension_def r Let_def t dr using assms(1) by simp
qed

lemma strip_suffix_append: "strip_suffix suf (s @ suf) = s"
  by (simp add: strip_suffix_def ends_with_def)

lemma filepathToUrl_index:
  assumes "ext \<noteq> []" and "list_all is_word_char ext"
  shows "filepathToUrl (d @ ''/index.'' @ ext) = ''/'' @ d"
proof -
  have "removeExtension ((d @ ''/index'') @ ''.'' @ ext) = d @ ''/index''"
    using assms by (rule removeExtension_dot)
  then have "removeExtension (d @ ''/index.'' @ ext) = d @ ''/index''"
    by simp
  moreover have "strip_suffix ''/index'' ((''/'' @ d) @ ''/index'') = ''/'' @ d"
    by (rule strip_suffix_append)
  ultimately show ?thesis
    by (simp add: filepathToUrl_def Let_def)
qed

lemma filepathToUrl_plain:
  assumes "ext \<noteq> []" and "list_all is_word_char ext"
    and "\<not> ends_with (''/'' @ d) ''/index''"
  shows "filepathToUrl (d @ ''.'' @ ext) = ''/'' @ d"
  using assms removeExtension_dot [of ext d]
  by (simp add: filepathToUrl_def Let_def strip_suffix_def)

text \<open>
  C5, as the code has it. For a path \<open>d/index.ext\<close> whose directory part \<open>d\<close> is not
  itself \<open>index\<close> and does not end in \<open>/index\<close>, the URL equals the URL of \<open>d.ext\<close>, the
  same path with the \<open>/index\<close> segment removed; both are \<open>/d\<close>. The URL of
  \<open>index.md\<close> is \<open>/\<close>. The expression \<open>/\/index$/\<close> drops one segment only.
\<close>

theorem filepathToUrl_index_collapse:
  assumes "ext \<noteq> []" and "list_all is_word_char ext"
    and "\<not> ends_with (''/'' @ d) ''/index''"
  shows "filepathToUrl (d @ ''/index.'' @ ext) = filepathToUrl (d @ ''.'' @ ext)
         \<and> filepathToUrl (d @ ''/index.'' @ ext) = ''/'' @ d
         \<and> filepathToUrl ''index.md'' = ''/''"
proof -
  have a: "filepathToUrl (d @ ''/index.'' @ ext) = ''/'' @ d"
    using assms(1,2) by (rule filepathToUrl_index)
  have b: "filepathToUrl (d @ ''.'' @ ext) = ''/'' @ d"
    using assms by (rule filepathToUrl_plain)
  have "removeExtension ([] @ ''.'' @ ''md'') = []"
    by (rule removeExtension_dot) (simp_all add: is_word_char_def)
  then have "removeExtension ''.md'' = []"
    by simp
  have "removeExtension (''index'' @ ''.'' @ ''md'') = ''index''"
    by (rule removeExtension_dot) (simp_all add: is_word_char_def)
  then have c: "filepathToUrl ''index.md'' = ''/''"
    by (simp add: filepathToUrl_def Let_def strip_suffix_def ends_with_def)
  from a b c show ?thesis by simp
qed

theorem filepathToUrl_index_collapse_witness:
  "filepathToUrl ''posts/index.md'' = filepathToUrl ''posts.md''
   \<and> filepathToUrl ''posts/index.md'' = ''/posts''
   \<and> filepathToUrl ''index.md'' = ''/''"
proof -
  have h1: "''md'' \<noteq> []" by simp
  have h2: "list_all is_word_char ''md''" by (simp add: is_word_char_def)
  have h3: "\<not> ends_with (''/'' @ ''posts'') ''/index''" by (simp add: ends_with_def)
  show ?thesis
    using filepathToUrl_index_collapse [OF h1 h2 h3, unfolded append.simps] .
qed

text \<open>
  C5 as the spec states it fails where the directory part is itself \<open>index\<close>:
  \<open>index/index.md\<close> has the URL \<open>/index\<close>, while \<open>index.md\<close>, the same path with the
  \<open>/index\<close> segment removed, has the URL \<open>/\<close>.
\<close>

theorem filepathToUrl_index_counterexample:
  "filepathToUrl ''index/index.md'' = ''/index''
   \<and> filepathToUrl ''index.md'' = ''/''
   \<and> filepathToUrl ''index/index.md'' \<noteq> filepathToUrl ''index.md''"
proof -
  have "removeExtension (''index/index'' @ ''.'' @ ''md'') = ''index/index''"
    by (rule removeExtension_dot) (simp_all add: is_word_char_def)
  then have a: "filepathToUrl ''index/index.md'' = ''/index''"
    by (simp add: filepathToUrl_def Let_def strip_suffix_def ends_with_def)
  have "removeExtension (''index'' @ ''.'' @ ''md'') = ''index''"
    by (rule removeExtension_dot) (simp_all add: is_word_char_def)
  then have b: "filepathToUrl ''index.md'' = ''/''"
    by (simp add: filepathToUrl_def Let_def strip_suffix_def ends_with_def)
  from a b show ?thesis by simp
qed

subsection \<open>Pagination\<close>

lemma ceil_div_upper:
  assumes "0 < (k::nat)"
  shows "n \<le> ((n + k - 1) div k) * k"
proof -
  have "(n + k - 1) mod k < k"
    using assms by simp
  moreover have "((n + k - 1) div k) * k + (n + k - 1) mod k = n + k - 1"
    by simp
  ultimately show ?thesis
    using assms by linarith
qed

lemma ceil_div_lower:
  assumes "0 < (k::nat)"
  shows "((n + k - 1) div k) * k < n + k"
proof -
  have "((n + k - 1) div k) * k \<le> n + k - 1"
    by simp
  then show ?thesis
    using assms by linarith
qed

lemma total_pages_div:
  assumes "0 < k"
  shows "total_pages n k = (n + k - 1) div k"
proof -
  let ?m = "(n + k - 1) div k"
  have 1: "real n \<le> real (?m * k)"
    using ceil_div_upper [OF assms, of n] by (simp only: of_nat_le_iff)
  have 2: "real (?m * k) < real (n + k)"
    using ceil_div_lower [OF assms, of n] by (simp only: of_nat_less_iff)
  have u: "real n / real k \<le> of_int (int ?m)"
    using 1 assms by (simp add: field_simps)
  have l: "of_int (int ?m) - 1 < real n / real k"
    using 2 assms by (simp add: field_simps)
  have "\<lceil>real n / real k\<rceil> = int ?m"
    using l u by (rule ceiling_unique)
  then show ?thesis
    by (simp add: total_pages_def)
qed

lemma paginate_valid:
  assumes "p \<noteq> []" and "0 < k" and "l \<noteq> []"
  shows "paginate docs (Some p) (Some k) (Some l) =
    Inr (map (\<lambda>i. \<lparr> previousUrl = (if 0 < i then Some (getPageNumberUrl p i) else None),
                      nextUrl = (if i + 1 < total_pages (length docs) k
                                 then Some (getPageNumberUrl p (i + 2)) else None),
                      sourcePath = strip_prefix ''/'' (getPageNumberUrl p (i + 1)),
                      documents = take k (drop (i * k) docs),
                      layout = l,
                      url = getPageNumberUrl p (i + 1) \<rparr>)
          [0..<total_pages (length docs) k])"
  using assms
  by (simp add: paginate_def truthy_string_def truthy_number_def Let_def js_slice_def)

text \<open>
  C7. With a non-empty \<open>urlPrefix\<close> \<open>p\<close>, a positive \<open>documentsPerPage\<close> \<open>k\<close> and a
  non-empty \<open>layout\<close> \<open>l\<close>, \<open>paginate\<close> returns exactly \<open>ceil(n / k)\<close> pages for
  \<open>n\<close> documents. Page number \<open>i + 1\<close> has the url \<open>p + "/page/" + (i + 1)\<close>; its
  \<open>previousUrl\<close> is absent on page 1 and the url of the page before it otherwise; its
  \<open>nextUrl\<close> is absent on the last page and the url of the page after it otherwise; its
  documents are the slice of the input from \<open>i * k\<close> to \<open>(i + 1) * k\<close>; its
  \<open>sourcePath\<close> is the url without its leading slash; its layout is \<open>l\<close>. No
  documents give no pages.
\<close>

theorem paginate_pages:
  assumes "p \<noteq> []" and "0 < k" and "l \<noteq> []"
  shows "\<exists>pages. paginate docs (Some p) (Some k) (Some l) = Inr pages
    \<and> int (length pages) = \<lceil>real (length docs) / real k\<rceil>
    \<and> (\<forall>i < length pages.
          url (pages ! i) = p @ ''/page/'' @ show_nat (i + 1)
        \<and> previousUrl (pages ! i) = (if i = 0 then None else Some (url (pages ! (i - 1))))
        \<and> nextUrl (pages ! i) =
            (if i + 1 = length pages then None else Some (url (pages ! (i + 1))))
        \<and> documents (pages ! i) = take k (drop (i * k) docs)
        \<and> sourcePath (pages ! i) =
            (if take 1 (url (pages ! i)) = ''/'' then drop 1 (url (pages ! i))
             else url (pages ! i))
        \<and> layout (pages ! i) = l)
    \<and> (docs = [] \<longrightarrow> pages = [])"
proof -
  define t where "t = total_pages (length docs) k"
  define f :: "nat \<Rightarrow> 'a list page" where
    "f = (\<lambda>i. \<lparr> previousUrl = (if 0 < i then Some (getPageNumberUrl p i) else None),
                 nextUrl = (if i + 1 < t then Some (getPageNumberUrl p (i + 2)) else None),
                 sourcePath = strip_prefix ''/'' (getPageNumberUrl p (i + 1)),
                 documents = take k (drop (i * k) docs),
                 layout = l,
                 url = getPageNumberUrl p (i + 1) \<rparr>)"
  define pages where "pages = map f [0..<t]"
  have r: "paginate docs (Some p) (Some k) (Some l) = Inr pages"
    unfolding pages_def f_def t_def using assms by (rule paginate_valid)
  have len: "length pages = t"
    by (simp add: pages_def)
  have "(0::real) \<le> real (length docs) / real k"
    by simp
  then have "- 1 < real (length docs) / real k"
    by linarith
  then have n: "int (length pages) = \<lceil>real (length docs) / real k\<rceil>"
    by (simp add: len t_def total_pages_def)
  have nth: "pages ! i = f i" if "i < t" for i
    using that by (simp add: pages_def)
  have f_url: "url (f i) = p @ ''/page/'' @ show_nat (i + 1)" for i
    by (simp add: f_def getPageNumberUrl_def)
  have f_prev: "previousUrl (f i) = (if i = 0 then None else Some (url (f (i - 1))))" for i
    by (simp add: f_def)
  have f_next: "nextUrl (f i) = (if i + 1 = t then None else Some (url (f (i + 1))))"
    if "i < t" for i
    using that by (simp add: f_def)
  have f_docs: "documents (f i) = take k (drop (i * k) docs)" for i
    by (simp add: f_def)
  have f_src: "sourcePath (f i) = (if take 1 (url (f i)) = ''/'' then drop 1 (url (f i)) else url (f i))"
    for i
    by (simp add: f_def strip_prefix_def)
  have f_lay: "layout (f i) = l" for i
    by (simp add: f_def)
  have each: "url (pages ! i) = p @ ''/page/'' @ show_nat (i + 1)
        \<and> previousUrl (pages ! i) = (if i = 0 then None else Some (url (pages ! (i - 1))))
        \<and> nextUrl (pages ! i) =
            (if i + 1 = length pages then None else Some (url (pages ! (i + 1))))
        \<and> documents (pages ! i) = take k (drop (i * k) docs)
        \<and> sourcePath (pages ! i) =
            (if take 1 (url (pages ! i)) = ''/'' then drop 1 (url (pages ! i))
             else url (pages ! i))
        \<and> layout (pages ! i) = l" if i: "i < length pages" for i
  proof -
    have it: "i < t" using i len by simp
    have a: "pages ! i = f i" using it by (rule nth)
    have b: "pages ! (i - 1) = f (i - 1)" using it by (intro nth) simp
    have c: "pages ! (i + 1) = f (i + 1)" if "i + 1 \<noteq> t" using it that by (intro nth) simp
    have nx: "nextUrl (pages ! i) =
            (if i + 1 = length pages then None else Some (url (pages ! (i + 1))))"
    proof (cases "i + 1 = t")
      case True
      then show ?thesis by (simp add: a len f_next [OF it])
    next
      case False
      have "nextUrl (pages ! i) = Some (url (f (i + 1)))"
        using False by (simp only: a f_next [OF it] if_False)
      then show ?thesis
        using False by (simp only: len c [OF False] if_False)
    qed
    have pv: "previousUrl (pages ! i) = (if i = 0 then None else Some (url (pages ! (i - 1))))"
      by (simp only: a b f_prev)
    have s: "sourcePath (pages ! i) =
            (if take 1 (url (pages ! i)) = ''/'' then drop 1 (url (pages ! i))
             else url (pages ! i))"
      by (simp only: a f_src)
    from nx pv s show ?thesis
      by (simp only: a f_url f_docs f_lay simp_thms)
  qed
  have e: "docs = [] \<longrightarrow> pages = []"
    by (simp add: pages_def t_def total_pages_def)
  from r n each e show ?thesis
    by blast
qed

lemma show_nat_digit: "n < 10 \<Longrightarrow> show_nat n = [digit_char n]"
  by (simp add: show_nat.simps)

theorem paginate_pages_witness:
  "\<exists>pages. paginate [JStr ''a'', JStr ''b'', JStr ''c'', JStr ''d'', JStr ''e'']
       (Some ''/blog'') (Some 2) (Some ''list'') = Inr pages
     \<and> length pages = 3
     \<and> url (pages ! 0) = ''/blog/page/1''
     \<and> previousUrl (pages ! 0) = None
     \<and> nextUrl (pages ! 0) = Some ''/blog/page/2''
     \<and> sourcePath (pages ! 0) = ''blog/page/1''
     \<and> documents (pages ! 2) = [JStr ''e'']
     \<and> nextUrl (pages ! 2) = None
     \<and> layout (pages ! 2) = ''list''"
proof -
  let ?docs = "[JStr ''a'', JStr ''b'', JStr ''c'', JStr ''d'', JStr ''e'']"
  have h1: "''/blog'' \<noteq> []" by simp
  have h2: "0 < (2::nat)" by simp
  have h3: "''list'' \<noteq> []" by simp
  obtain pages where r: "paginate ?docs (Some ''/blog'') (Some 2) (Some ''list'') = Inr pages"
    and n: "int (length pages) = \<lceil>real (length ?docs) / real (2::nat)\<rceil>"
    and each: "\<forall>i < length pages.
          url (pages ! i) = ''/blog'' @ ''/page/'' @ show_nat (i + 1)
        \<and> previousUrl (pages ! i) = (if i = 0 then None else Some (url (pages ! (i - 1))))
        \<and> nextUrl (pages ! i) =
            (if i + 1 = length pages then None else Some (url (pages ! (i + 1))))
        \<and> documents (pages ! i) = take 2 (drop (i * 2) ?docs)
        \<and> sourcePath (pages ! i) =
            (if take 1 (url (pages ! i)) = ''/'' then drop 1 (url (pages ! i))
             else url (pages ! i))
        \<and> layout (pages ! i) = ''list''"
    using paginate_pages [OF h1 h2 h3, of ?docs] by blast
  have "\<lceil>real (length ?docs) / real (2::nat)\<rceil> = 3"
    by (simp add: ceiling_eq_iff)
  then have len: "length pages = 3"
    using n by simp
  have p0: "url (pages ! 0) = ''/blog/page/1''" "previousUrl (pages ! 0) = None"
    "nextUrl (pages ! 0) = Some (url (pages ! 1))" "sourcePath (pages ! 0) = ''blog/page/1''"
    using each [rule_format, of 0] len by (simp_all add: show_nat_digit digit_char_def)
  have p1: "url (pages ! 1) = ''/blog/page/2''"
    using each [rule_format, of 1] len by (simp add: show_nat_digit digit_char_def)
  have p2: "documents (pages ! 2) = [JStr ''e'']" "nextUrl (pages ! 2) = None"
    "layout (pages ! 2) = ''list''"
    using each [rule_format, of 2] len by simp_all
  from r len p0 p1 p2 show ?thesis
    by simp
qed

text \<open>
  C8, as the code has it. \<open>paginate\<close> throws exactly when one of \<open>urlPrefix\<close>,
  \<open>documentsPerPage\<close>, \<open>layout\<close> is missing or falsy (a missing option, the empty
  string, the number 0), and returns a list of pages exactly when all three are
  present and truthy. What it throws is JavaScript's generic \<open>Error\<close> with the message
  \<open>"X" not specified for paginate().\<close>, where \<open>X\<close> is the first option, in the
  order \<open>urlPrefix\<close>, \<open>documentsPerPage\<close>, \<open>layout\<close>, that is missing or falsy.
\<close>

theorem paginate_error_iff:
  "(paginate docs u k l =
      Inl (Error ([CHR 0x22] @ ''urlPrefix'' @ [CHR 0x22] @ '' not specified for paginate().''))
    \<longleftrightarrow> u = None \<or> u = Some [])
   \<and> (paginate docs u k l =
      Inl (Error ([CHR 0x22] @ ''documentsPerPage'' @ [CHR 0x22] @ '' not specified for paginate().''))
    \<longleftrightarrow> (\<exists>p. u = Some p \<and> p \<noteq> []) \<and> (k = None \<or> k = Some 0))
   \<and> (paginate docs u k l =
      Inl (Error ([CHR 0x22] @ ''layout'' @ [CHR 0x22] @ '' not specified for paginate().''))
    \<longleftrightarrow> (\<exists>p. u = Some p \<and> p \<noteq> []) \<and> (\<exists>n. k = Some n \<and> 0 < n) \<and> (l = None \<or> l = Some []))
   \<and> ((\<exists>e. paginate docs u k l = Inl e)
    \<longleftrightarrow> u = None \<or> u = Some [] \<or> k = None \<or> k = Some 0 \<or> l = None \<or> l = Some [])
   \<and> ((\<exists>pages. paginate docs u k l = Inr pages)
    \<longleftrightarrow> (\<exists>p n y. u = Some p \<and> p \<noteq> [] \<and> k = Some n \<and> 0 < n \<and> l = Some y \<and> y \<noteq> []))"
proof -
  let ?r = "paginate docs u k l"
  consider (u) "u = None \<or> u = Some []"
    | (k) p where "u = Some p" "p \<noteq> []" "k = None \<or> k = Some 0"
    | (l) p n where "u = Some p" "p \<noteq> []" "k = Some n" "0 < n" "l = None \<or> l = Some []"
    | (ok) p n y where "u = Some p" "p \<noteq> []" "k = Some n" "0 < n" "l = Some y" "y \<noteq> []"
    by (cases u; cases k; cases l) (auto, blast)
  then show ?thesis
  proof cases
    case u
    then have "?r =
        Inl (Error ([CHR 0x22] @ ''urlPrefix'' @ [CHR 0x22] @ '' not specified for paginate().''))"
      by (auto simp: paginate_def truthy_string_def not_specified_def)
    then show ?thesis
      using u by auto
  next
    case k
    then have "?r = Inl (Error ([CHR 0x22] @ ''documentsPerPage'' @ [CHR 0x22]
        @ '' not specified for paginate().''))"
      by (auto simp: paginate_def truthy_string_def truthy_number_def not_specified_def)
    then show ?thesis
      using k by auto
  next
    case l
    then have "?r =
        Inl (Error ([CHR 0x22] @ ''layout'' @ [CHR 0x22] @ '' not specified for paginate().''))"
      by (auto simp: paginate_def truthy_string_def truthy_number_def not_specified_def)
    then show ?thesis
      using l by auto
  next
    case ok
    then have "\<exists>pages. ?r = Inr pages"
      by (simp add: paginate_def truthy_string_def truthy_number_def Let_def)
    then show ?thesis
      using ok by auto
  qed
qed

theorem paginate_error_iff_witness:
  "paginate [JStr ''a'', JStr ''b''] (Some []) (Some 2) (Some ''list'') =
     Inl (Error ([CHR 0x22] @ ''urlPrefix'' @ [CHR 0x22] @ '' not specified for paginate().''))
   \<and> paginate [JStr ''a'', JStr ''b''] (Some ''/blog'') (Some 0) (Some ''list'') =
     Inl (Error ([CHR 0x22] @ ''documentsPerPage'' @ [CHR 0x22] @ '' not specified for paginate().''))
   \<and> paginate [JStr ''a'', JStr ''b''] (Some ''/blog'') (Some 2) (Some []) =
     Inl (Error ([CHR 0x22] @ ''layout'' @ [CHR 0x22] @ '' not specified for paginate().''))
   \<and> paginate [JStr ''a'', JStr ''b''] (Some ''/blog'') (Some 2) None =
     Inl (Error ([CHR 0x22] @ ''layout'' @ [CHR 0x22] @ '' not specified for paginate().''))
   \<and> (\<exists>pages. paginate [JStr ''a'', JStr ''b''] (Some ''/blog'') (Some 2) (Some ''list'') =
        Inr pages)"
proof -
  let ?docs = "[JStr ''a'', JStr ''b'']"
  have a: "paginate ?docs (Some []) (Some 2) (Some ''list'') =
      Inl (Error ([CHR 0x22] @ ''urlPrefix'' @ [CHR 0x22] @ '' not specified for paginate().''))"
    by (rule paginate_error_iff [of ?docs "Some []" "Some 2" "Some ''list''",
          THEN conjunct1, THEN iffD2]) simp
  have b: "paginate ?docs (Some ''/blog'') (Some 0) (Some ''list'') =
      Inl (Error ([CHR 0x22] @ ''documentsPerPage'' @ [CHR 0x22] @ '' not specified for paginate().''))"
    by (rule paginate_error_iff [of ?docs "Some ''/blog''" "Some 0" "Some ''list''",
          THEN conjunct2, THEN conjunct1, THEN iffD2]) simp
  have c: "paginate ?docs (Some ''/blog'') (Some 2) (Some []) =
      Inl (Error ([CHR 0x22] @ ''layout'' @ [CHR 0x22] @ '' not specified for paginate().''))"
    by (rule paginate_error_iff [of ?docs "Some ''/blog''" "Some 2" "Some []",
          THEN conjunct2, THEN conjunct2, THEN conjunct1, THEN iffD2]) simp
  have d: "paginate ?docs (Some ''/blog'') (Some 2) None =
      Inl (Error ([CHR 0x22] @ ''layout'' @ [CHR 0x22] @ '' not specified for paginate().''))"
    by (rule paginate_error_iff [of ?docs "Some ''/blog''" "Some 2" None,
          THEN conjunct2, THEN conjunct2, THEN conjunct1, THEN iffD2]) simp
  have e: "\<exists>pages. paginate ?docs (Some ''/blog'') (Some 2) (Some ''list'') = Inr pages"
    by (rule paginate_error_iff [of ?docs "Some ''/blog''" "Some 2" "Some ''list''",
          THEN conjunct2, THEN conjunct2, THEN conjunct2, THEN conjunct2, THEN iffD2]) simp
  from a b c d e show ?thesis
    by (intro conjI)
qed

text \<open>
  C8 as the spec states it fails: there is no \<open>ConfigurationError\<close>. With no options
  at all \<open>paginate\<close> throws the generic \<open>Error\<close>, and its message names \<open>urlPrefix\<close>
  alone, though \<open>documentsPerPage\<close> and \<open>layout\<close> are missing too.
\<close>

theorem paginate_generic_error_counterexample:
  "paginate [JStr ''a'', JStr ''b''] None None None =
     Inl (Error ([CHR 0x22] @ ''urlPrefix'' @ [CHR 0x22] @ '' not specified for paginate().''))"
  by (simp add: paginate_def truthy_string_def not_specified_def)

subsection \<open>Objects\<close>

lemma obj_get_obj_set: "obj_get (obj_set ob k v) k' = (if k' = k then v else obj_get ob k')"
  by (induction ob) auto

lemma obj_keys_obj_set:
  "obj_keys (obj_set ob k v) = (if k \<in> set (obj_keys ob) then obj_keys ob else obj_keys ob @ [k])"
proof (induction ob)
  case Nil
  then show ?case by (simp add: obj_keys_def)
next
  case (Cons kv ob)
  obtain k' v' where kv: "kv = (k', v')" by (cases kv)
  show ?case
  proof (cases "k' = k")
    case True
    then show ?thesis using kv by (simp add: obj_keys_def)
  next
    case False
    then show ?thesis using kv Cons.IH by (simp add: obj_keys_def)
  qed
qed

lemma keys_obj_set: "set (obj_keys (obj_set ob k v)) = insert k (set (obj_keys ob))"
  by (auto simp: obj_keys_obj_set)

lemma distinct_obj_set: "distinct (obj_keys ob) \<Longrightarrow> distinct (obj_keys (obj_set ob k v))"
  by (simp add: obj_keys_obj_set)

lemma obj_get_absent: "k \<notin> set (obj_keys ob) \<Longrightarrow> obj_get ob k = JUndefined"
  by (induction ob) (auto simp: obj_keys_def)

lemma obj_set_new: "key \<notin> fst ` set g \<Longrightarrow> obj_set g key v = g @ [(key, v)]"
  by (induction g) auto

subsection \<open>Deep merge\<close>

lemma merge_value_primitive: "is_primitive v \<Longrightarrow> merge_value objValue v = v"
  by (cases v) (simp_all add: is_primitive_def)

lemma obj_get_merge_object:
  assumes "distinct (obj_keys src)"
  shows "obj_get (merge_object dst src) k =
    (if k \<in> set (obj_keys src) then merge_value (obj_get dst k) (obj_get src k)
     else obj_get dst k)"
  using assms
proof (induction src arbitrary: dst)
  case Nil
  then show ?case by (simp add: obj_keys_def)
next
  case (Cons kv src)
  obtain key v where kv: "kv = (key, v)" by (cases kv)
  have d: "distinct (obj_keys src)" and nk: "key \<notin> set (obj_keys src)"
    using Cons.prems kv by (simp_all add: obj_keys_def)
  define dst' where "dst' =
    (if v = JUndefined \<and> key \<notin> set (obj_keys dst) \<and> key \<in> set object_prototype_names
     then dst else obj_set dst key (merge_value (obj_get dst key) v))"
  have step: "merge_object dst (kv # src) = merge_object dst' src"
    by (simp add: kv dst'_def)
  have g: "obj_get dst' k' = (if k' = key then merge_value (obj_get dst key) v else obj_get dst k')"
    for k'
    by (simp add: dst'_def obj_get_obj_set obj_get_absent)
  have ih: "obj_get (merge_object dst' src) k =
    (if k \<in> set (obj_keys src) then merge_value (obj_get dst' k) (obj_get src k)
     else obj_get dst' k)"
    using d by (rule Cons.IH)
  show ?case
  proof (cases "k = key")
    case True
    then show ?thesis
      unfolding step using ih nk kv by (simp add: g obj_keys_def)
  next
    case False
    then show ?thesis
      unfolding step using ih kv by (simp add: g obj_keys_def)
  qed
qed

lemma js_get_own: "k \<in> set (obj_keys ob) \<Longrightarrow> js_get ob k = Value (obj_get ob k)"
  by (simp add: js_get_def)

lemma js_get_absent:
  "k \<notin> set (obj_keys ob) \<Longrightarrow> k \<notin> set object_prototype_names \<Longrightarrow>
   js_get ob k = Value JUndefined"
  by (simp add: js_get_def)

lemma js_get_inherited:
  "k \<notin> set (obj_keys ob) \<Longrightarrow> k \<in> set object_prototype_names \<Longrightarrow> js_get ob k = Member k"
  by (simp add: js_get_def)

lemma merge_array_copy:
  assumes "\<forall>v \<in> set vs. merge_value JUndefined v = v"
  shows "merge_array [] vs = vs"
  using assms by (induction vs) simp_all

lemma merge_object_copy:
  assumes "distinct (map fst kvs)" and "set (map fst kvs) \<inter> set (obj_keys dst) = {}"
    and "\<forall>kv \<in> set kvs. snd kv \<noteq> JUndefined \<and> merge_value JUndefined (snd kv) = snd kv"
  shows "merge_object dst kvs = dst @ kvs"
  using assms
proof (induction kvs arbitrary: dst)
  case Nil
  then show ?case by simp
next
  case (Cons kv kvs)
  obtain key v where kv: "kv = (key, v)" by (cases kv)
  have nk: "key \<notin> set (obj_keys dst)" and nk': "key \<notin> fst ` set dst"
    using Cons.prems(2) by (simp_all add: kv obj_keys_def)
  have v: "v \<noteq> JUndefined" "merge_value JUndefined v = v"
    using Cons.prems(3) by (simp_all add: kv)
  have g: "obj_get dst key = JUndefined"
    using nk by (rule obj_get_absent)
  have step: "merge_object dst (kv # kvs) = merge_object (dst @ [(key, v)]) kvs"
    by (simp add: kv v g obj_set_new [OF nk'])
  have d: "distinct (map fst kvs)"
    using Cons.prems(1) by simp
  have i: "set (map fst kvs) \<inter> set (obj_keys (dst @ [(key, v)])) = {}"
    using Cons.prems(1,2) by (auto simp: kv obj_keys_def)
  have r: "\<forall>kv \<in> set kvs. snd kv \<noteq> JUndefined \<and> merge_value JUndefined (snd kv) = snd kv"
    using Cons.prems(3) by simp
  have "merge_object (dst @ [(key, v)]) kvs = (dst @ [(key, v)]) @ kvs"
    using d i r by (rule Cons.IH)
  then show ?case
    unfolding step by (simp add: kv)
qed

lemma yaml_value_defined: "yaml_value v \<Longrightarrow> v \<noteq> JUndefined"
  by (cases v) simp_all

lemma merge_value_copy: "yaml_value v \<Longrightarrow> merge_value JUndefined v = v"
proof (induction v)
  case (JArr vs)
  have "\<forall>v \<in> set vs. merge_value JUndefined v = v"
    using JArr by (simp add: list_all_iff)
  then have "merge_array [] vs = vs"
    by (rule merge_array_copy)
  then show ?case
    by simp
next
  case (JObj kvs)
  have d: "distinct (map fst kvs)" and y: "\<forall>kv \<in> set kvs. yaml_value (snd kv)"
    using JObj.prems by (simp_all add: list_all_iff)
  have "\<forall>kv \<in> set kvs. snd kv \<noteq> JUndefined \<and> merge_value JUndefined (snd kv) = snd kv"
  proof
    fix kv
    assume m: "kv \<in> set kvs"
    have s: "snd kv \<in> Basic_BNFs.snds kv"
      by (cases kv) simp
    have "yaml_value (snd kv)"
      using y m by blast
    then show "snd kv \<noteq> JUndefined \<and> merge_value JUndefined (snd kv) = snd kv"
      using JObj.IH [OF m s] yaml_value_defined by blast
  qed
  with d have "merge_object [] kvs = [] @ kvs"
    by (intro merge_object_copy) (simp_all add: obj_keys_def)
  then show ?case
    by simp
qed simp_all

lemma merge_value_new:
  assumes "yaml_value v" and "b = JUndefined \<or> is_primitive b"
  shows "merge_value b v = v"
proof -
  have c: "merge_value JUndefined v = v"
    using assms(1) by (rule merge_value_copy)
  show ?thesis
  proof (cases v)
    case (JArr vs)
    then show ?thesis
      using c assms(2) by (auto simp: is_primitive_def split: jsval.splits)
  next
    case (JObj kvs)
    then show ?thesis
      using c assms(2) by (auto simp: is_primitive_def split: jsval.splits)
  qed (use assms(1) in simp_all)
qed

lemma keys_merge_object:
  assumes "\<forall>kv \<in> set src. snd kv \<noteq> JUndefined"
  shows "set (obj_keys (merge_object dst src)) = set (obj_keys dst) \<union> set (obj_keys src)"
  using assms
proof (induction src arbitrary: dst)
  case Nil
  then show ?case by (simp add: obj_keys_def)
next
  case (Cons kv src)
  obtain key v where kv: "kv = (key, v)" by (cases kv)
  have v: "v \<noteq> JUndefined"
    using Cons.prems by (simp add: kv)
  let ?dst = "obj_set dst key (merge_value (obj_get dst key) v)"
  have "set (obj_keys (merge_object dst (kv # src))) = set (obj_keys (merge_object ?dst src))"
    by (simp add: kv v)
  also have "\<dots> = set (obj_keys ?dst) \<union> set (obj_keys src)"
    using Cons.prems by (intro Cons.IH) simp
  also have "\<dots> = insert key (set (obj_keys dst)) \<union> set (obj_keys src)"
    by (simp only: keys_obj_set)
  also have "\<dots> = set (obj_keys dst) \<union> set (obj_keys (kv # src))"
    by (simp add: kv obj_keys_def)
  finally show ?case .
qed

lemma length_merge_array: "length (merge_array bs os) = max (length bs) (length os)"
proof (induction os arbitrary: bs)
  case Nil
  then show ?case by simp
next
  case (Cons ov os)
  then show ?case by (cases bs) simp_all
qed

lemma merge_array_nth:
  assumes "i < max (length bs) (length os)"
  shows "merge_array bs os ! i =
    (if i < length os
     then merge_value (if i < length bs then bs ! i else JUndefined) (os ! i)
     else bs ! i)"
  using assms
proof (induction os arbitrary: bs i)
  case Nil
  then show ?case by simp
next
  case (Cons ov os)
  show ?case
  proof (cases bs)
    case Nil
    show ?thesis
    proof (cases i)
      case 0
      then show ?thesis by (simp add: Nil)
    next
      case (Suc j)
      then have "j < max (length ([] :: jsval list)) (length os)"
        using Cons.prems Nil by simp
      from Cons.IH [OF this] Cons.prems show ?thesis
        by (simp add: Nil Suc)
    qed
  next
    case (Cons b bs')
    show ?thesis
    proof (cases i)
      case 0
      then show ?thesis by (simp add: Cons)
    next
      case (Suc j)
      then have "j < max (length bs') (length os)"
        using Cons.prems Cons by simp
      from Cons.IH [OF this] show ?thesis
        by (simp add: Cons Suc)
    qed
  qed
qed

subsection \<open>Configs\<close>

lemma mergeConfigs_fold_keys:
  "set (obj_keys (fold (\<lambda>(lang, overlay) merged. obj_set merged lang (g overlay)) es m)) =
     set (obj_keys m) \<union> fst ` set es"
proof (induction es arbitrary: m)
  case Nil
  then show ?case by simp
next
  case (Cons e es)
  then show ?case
    by (cases e) (auto simp: keys_obj_set)
qed

lemma mergeConfigs_fold_other:
  "k \<notin> fst ` set es \<Longrightarrow>
   obj_get (fold (\<lambda>(lang, overlay) merged. obj_set merged lang (g overlay)) es m) k = obj_get m k"
proof (induction es arbitrary: m)
  case Nil
  then show ?case by simp
next
  case (Cons e es)
  then show ?case
    by (cases e) (auto simp: obj_get_obj_set)
qed

lemma mergeConfigs_fold_lang:
  "distinct (map fst es) \<Longrightarrow> (lang, overlay) \<in> set es \<Longrightarrow>
   obj_get (fold (\<lambda>(lang, overlay) merged. obj_set merged lang (g overlay)) es m) lang = g overlay"
proof (induction es arbitrary: m)
  case Nil
  then show ?case by simp
next
  case (Cons e es)
  obtain l ov where e: "e = (l, ov)" by (cases e)
  show ?case
  proof (cases "(lang, overlay) = e")
    case True
    then have "lang \<notin> fst ` set es"
      using Cons.prems(1) e by auto
    then show ?thesis
      using True e by (simp add: mergeConfigs_fold_other obj_get_obj_set)
  next
    case False
    then have "(lang, overlay) \<in> set es"
      using Cons.prems(2) by simp
    moreover have "distinct (map fst es)"
      using Cons.prems(1) by simp
    ultimately show ?thesis
      using Cons.IH e by simp
  qed
qed

lemma readConfigFiles_from_langs:
  assumes "readConfigFiles_from readYamlFile cfg files = Inr cfg'"
  shows "set (obj_keys (langs cfg')) =
           set (obj_keys (langs cfg)) \<union> {n. \<exists>f \<in> set files. n = removeExtension (basename f) \<and> n \<noteq> ''base'' \<and> n \<noteq> ''__proto__''}
         \<and> (distinct (obj_keys (langs cfg)) \<longrightarrow> distinct (obj_keys (langs cfg')))"
  using assms
proof (induction files arbitrary: cfg)
  case Nil
  then show ?case by simp
next
  case (Cons f files)
  obtain yaml where y: "readYamlFile f = Inr yaml"
    using Cons.prems by (cases "readYamlFile f") (simp_all add: Let_def)
  show ?case
  proof (cases "removeExtension (basename f) = ''base''")
    case True
    then have "readConfigFiles_from readYamlFile (cfg\<lparr>base := yaml\<rparr>) files = Inr cfg'"
      using Cons.prems y by (simp add: Let_def)
    from Cons.IH [OF this] True show ?thesis
      by auto
  next
    case False
    show ?thesis
    proof (cases "removeExtension (basename f) = ''__proto__''")
      case True
      then have "readConfigFiles_from readYamlFile cfg files = Inr cfg'"
        using Cons.prems y by (simp add: Let_def)
      from Cons.IH [OF this] True show ?thesis
        by auto
    next
      case proto: False
      let ?cfg = "cfg\<lparr>langs := obj_set (langs cfg) (removeExtension (basename f)) yaml\<rparr>"
      have "readConfigFiles_from readYamlFile ?cfg files = Inr cfg'"
        using Cons.prems y False proto by (simp add: Let_def)
      from Cons.IH [OF this] False proto show ?thesis
        by (auto simp: keys_obj_set distinct_obj_set)
    qed
  qed
qed

lemma readConfigFiles_langs:
  assumes "readConfigFiles readYamlFile files = Inr cfg"
  shows "set (obj_keys (langs cfg)) =
           {n. \<exists>f \<in> set files. n = removeExtension (basename f) \<and> n \<noteq> ''base'' \<and> n \<noteq> ''__proto__''}"
    and "distinct (obj_keys (langs cfg))"
  using readConfigFiles_from_langs [OF assms [unfolded readConfigFiles_def]]
  by (simp_all add: obj_keys_def)

lemma mergeConfigs_langs:
  assumes "langs cfg \<noteq> []" and "distinct (obj_keys (langs cfg))"
    and "''base'' \<notin> set (obj_keys (langs cfg))"
  shows "set (obj_keys (mergeConfigs cfg)) = insert ''base'' (set (obj_keys (langs cfg)))"
    and "obj_get (mergeConfigs cfg) ''base'' = JObj (base cfg)"
    and "(lang, overlay) \<in> set (langs cfg) \<Longrightarrow>
           obj_get (mergeConfigs cfg) lang = JObj (lodash_merge [] [base cfg, overlay])"
proof -
  let ?g = "\<lambda>overlay. JObj (lodash_merge [] [base cfg, overlay])"
  let ?m = "[(''base'', JObj (base cfg))]"
  have m: "mergeConfigs cfg =
      fold (\<lambda>(lang, overlay) merged. obj_set merged lang (?g overlay)) (langs cfg) ?m"
    using assms(1) by (simp add: mergeConfigs_def)
  show "set (obj_keys (mergeConfigs cfg)) = insert ''base'' (set (obj_keys (langs cfg)))"
    unfolding m mergeConfigs_fold_keys by (simp add: obj_keys_def)
  have "''base'' \<notin> fst ` set (langs cfg)"
    using assms(3) by (simp add: obj_keys_def)
  then have "obj_get (mergeConfigs cfg) ''base'' = obj_get ?m ''base''"
    unfolding m by (rule mergeConfigs_fold_other)
  then show "obj_get (mergeConfigs cfg) ''base'' = JObj (base cfg)"
    by simp
  show "obj_get (mergeConfigs cfg) lang = ?g overlay" if "(lang, overlay) \<in> set (langs cfg)"
    unfolding m using assms(2) [unfolded obj_keys_def] that by (rule mergeConfigs_fold_lang)
qed

lemma yaml_value_obj_get:
  assumes "yaml_value (JObj kvs)" and "k \<in> set (obj_keys kvs)"
  shows "yaml_value (obj_get kvs k)"
proof -
  have "\<forall>kv \<in> set kvs. yaml_value (snd kv)"
    using assms(1) by (simp add: list_all_iff)
  then show ?thesis
    using assms(2) by (induction kvs) (force simp: obj_keys_def)+
qed

lemma lodash_merge_yaml:
  assumes "yaml_value (JObj b)" and "yaml_value (JObj ov)"
  shows "obj_get (lodash_merge [] [b, ov]) k =
      (if k \<in> set (obj_keys ov) then merge_value (obj_get b k) (obj_get ov k)
       else obj_get b k)"
    and "set (obj_keys (lodash_merge [] [b, ov])) = set (obj_keys b) \<union> set (obj_keys ov)"
proof -
  have "merge_value JUndefined (JObj b) = JObj b"
    using assms(1) by (rule merge_value_copy)
  then have copy: "merge_object [] b = b"
    by simp
  have m: "lodash_merge [] [b, ov] = merge_object b ov"
    by (simp add: lodash_merge_def copy)
  have d: "distinct (obj_keys ov)"
    using assms(2) by (simp add: obj_keys_def)
  show "obj_get (lodash_merge [] [b, ov]) k =
      (if k \<in> set (obj_keys ov) then merge_value (obj_get b k) (obj_get ov k)
       else obj_get b k)"
    unfolding m using d by (rule obj_get_merge_object)
  have "\<forall>kv \<in> set ov. yaml_value (snd kv)"
    using assms(2) by (simp add: list_all_iff)
  then have "\<forall>kv \<in> set ov. snd kv \<noteq> JUndefined"
    using yaml_value_defined by blast
  then show "set (obj_keys (lodash_merge [] [b, ov])) = set (obj_keys b) \<union> set (obj_keys ov)"
    unfolding m by (rule keys_merge_object)
qed

lemma lodash_merge_rules:
  assumes "yaml_value (JObj b)" and "yaml_value (JObj ov)" and "merged = lodash_merge [] [b, ov]"
  shows "set (obj_keys merged) = set (obj_keys b) \<union> set (obj_keys ov)
    \<and> (\<forall>k. k \<notin> set (obj_keys ov) \<longrightarrow> obj_get merged k = obj_get b k)
    \<and> (\<forall>k. k \<in> set (obj_keys ov) \<and> (k \<notin> set (obj_keys b) \<or> is_primitive (obj_get b k)) \<longrightarrow>
          obj_get merged k = obj_get ov k)
    \<and> (\<forall>k. is_primitive (obj_get ov k) \<longrightarrow> obj_get merged k = obj_get ov k)
    \<and> (\<forall>k bb oo. obj_get b k = JObj bb \<and> obj_get ov k = JObj oo \<longrightarrow>
          (\<exists>m. obj_get merged k = JObj m
             \<and> (\<forall>k'. obj_get m k' =
                   (if k' \<in> set (obj_keys oo) then merge_value (obj_get bb k') (obj_get oo k')
                    else obj_get bb k'))
             \<and> (\<forall>k'. is_primitive (obj_get oo k') \<longrightarrow> obj_get m k' = obj_get oo k')))
    \<and> (\<forall>k bs os. obj_get b k = JArr bs \<and> obj_get ov k = JArr os \<longrightarrow>
          (\<exists>ms. obj_get merged k = JArr ms
             \<and> length ms = max (length bs) (length os)
             \<and> (\<forall>i < length ms. ms ! i =
                   (if i < length os
                    then merge_value (if i < length bs then bs ! i else JUndefined) (os ! i)
                    else bs ! i))
             \<and> (\<forall>i < length os. is_primitive (os ! i) \<longrightarrow> ms ! i = os ! i)))"
proof -
  note g = lodash_merge_yaml(1) [OF assms(1,2), folded assms(3)]
  note ks = lodash_merge_yaml(2) [OF assms(1,2), folded assms(3)]
  have np: "\<not> is_primitive JUndefined"
    by (simp add: is_primitive_def)
  have a: "obj_get merged k = obj_get b k" if "k \<notin> set (obj_keys ov)" for k
    using that by (simp add: g)
  have c: "obj_get merged k = obj_get ov k"
    if "k \<in> set (obj_keys ov) \<and> (k \<notin> set (obj_keys b) \<or> is_primitive (obj_get b k))" for k
  proof -
    have y: "yaml_value (obj_get ov k)"
      using assms(2) that by (intro yaml_value_obj_get) simp_all
    have "obj_get b k = JUndefined \<or> is_primitive (obj_get b k)"
      using that obj_get_absent [of k b] by blast
    with y have "merge_value (obj_get b k) (obj_get ov k) = obj_get ov k"
      by (rule merge_value_new)
    then show ?thesis
      using that by (simp add: g)
  qed
  have p: "obj_get merged k = obj_get ov k" if "is_primitive (obj_get ov k)" for k
  proof -
    have "k \<in> set (obj_keys ov)"
      using that np obj_get_absent [of k ov] by metis
    then show ?thesis
      using that by (simp add: g merge_value_primitive)
  qed
  have o: "\<exists>m. obj_get merged k = JObj m
             \<and> (\<forall>k'. obj_get m k' =
                   (if k' \<in> set (obj_keys oo) then merge_value (obj_get bb k') (obj_get oo k')
                    else obj_get bb k'))
             \<and> (\<forall>k'. is_primitive (obj_get oo k') \<longrightarrow> obj_get m k' = obj_get oo k')"
    if h: "obj_get b k = JObj bb \<and> obj_get ov k = JObj oo" for k bb oo
  proof -
    have k: "k \<in> set (obj_keys ov)"
      using h obj_get_absent [of k ov] by auto
    then have "yaml_value (obj_get ov k)"
      using assms(2) by (intro yaml_value_obj_get)
    then have d: "distinct (obj_keys oo)"
      using h by (simp add: obj_keys_def)
    note n = obj_get_merge_object [OF d, of bb]
    have 1: "obj_get merged k = JObj (merge_object bb oo)"
      using k h by (simp add: g)
    have 3: "obj_get (merge_object bb oo) k' = obj_get oo k'" if q: "is_primitive (obj_get oo k')" for k'
    proof -
      have "k' \<in> set (obj_keys oo)"
        using q np obj_get_absent [of k' oo] by metis
      then show ?thesis
        using q by (simp add: n merge_value_primitive)
    qed
    from 1 n 3 show ?thesis
      by blast
  qed
  have r: "\<exists>ms. obj_get merged k = JArr ms
             \<and> length ms = max (length bs) (length os)
             \<and> (\<forall>i < length ms. ms ! i =
                   (if i < length os
                    then merge_value (if i < length bs then bs ! i else JUndefined) (os ! i)
                    else bs ! i))
             \<and> (\<forall>i < length os. is_primitive (os ! i) \<longrightarrow> ms ! i = os ! i)"
    if h: "obj_get b k = JArr bs \<and> obj_get ov k = JArr os" for k bs os
  proof -
    have k: "k \<in> set (obj_keys ov)"
      using h obj_get_absent [of k ov] by auto
    have 1: "obj_get merged k = JArr (merge_array bs os)"
      using k h by (simp add: g)
    have 2: "length (merge_array bs os) = max (length bs) (length os)"
      by (rule length_merge_array)
    have 3: "merge_array bs os ! i =
        (if i < length os
         then merge_value (if i < length bs then bs ! i else JUndefined) (os ! i)
         else bs ! i)" if "i < length (merge_array bs os)" for i
      using that unfolding 2 by (rule merge_array_nth)
    have 4: "merge_array bs os ! i = os ! i" if "i < length os" and "is_primitive (os ! i)" for i
    proof -
      have "i < max (length bs) (length os)"
        using that(1) by simp
      then show ?thesis
        using that by (simp add: merge_array_nth merge_value_primitive)
    qed
    from 1 2 3 4 show ?thesis
      by blast
  qed
  from ks a c p o r show ?thesis
    by blast
qed

text \<open>
  C1, as the code has it. When at least one language file exists besides \<open>base.yml\<close>
  (and every file is read, the files holding YAML values), \<open>loadConfig\<close> returns a
  mapping whose keys are the language codes together with the key \<open>base\<close>; a file
  \<open>__proto__.yml\<close> gives no language, since assigning to that name makes no property. The
  accumulator of the merge starts from \<open>{base}\<close>, so \<open>base\<close> stays a top-level key,
  mapped to the base config. Each language code is mapped to the deep merge of the base
  config with the overlay of that language, whose keys are those of the two. A key that
  the overlay lacks keeps the base's value. A key of the overlay that the base lacks,
  or under which the base holds a scalar, gets the overlay's value. A scalar of the
  overlay replaces the base's value. Where both hold mappings, the two are merged key
  by key by the same rules. Where both hold sequences, they are merged index by index:
  the overlay's element is merged into the base's element at the same index by the same
  rules, a scalar replacing it, and the base's elements beyond the overlay's length are
  kept.
\<close>

theorem loadConfig_languages:
  assumes "readConfigFiles readYamlFile (getConfigFilesList glob_sync folder) = Inr cfg"
    and "\<exists>f \<in> set (getConfigFilesList glob_sync folder).
           removeExtension (basename f) \<noteq> ''base'' \<and> removeExtension (basename f) \<noteq> ''__proto__''"
    and "yaml_value (JObj (base cfg))"
    and "\<forall>(lang, overlay) \<in> set (langs cfg). yaml_value (JObj overlay)"
  shows "\<exists>result. loadConfig glob_sync readYamlFile folder = Inr result
    \<and> set (obj_keys (langs cfg)) =
        {n. \<exists>f \<in> set (getConfigFilesList glob_sync folder).
              n = removeExtension (basename f) \<and> n \<noteq> ''base'' \<and> n \<noteq> ''__proto__''}
    \<and> set (obj_keys result) = insert ''base'' (set (obj_keys (langs cfg)))
    \<and> obj_get result ''base'' = JObj (base cfg)
    \<and> (\<forall>(lang, overlay) \<in> set (langs cfg).
          \<exists>merged. obj_get result lang = JObj merged
            \<and> merged = lodash_merge [] [base cfg, overlay]
            \<and> set (obj_keys merged) = set (obj_keys (base cfg)) \<union> set (obj_keys overlay)
            \<and> (\<forall>k. k \<notin> set (obj_keys overlay) \<longrightarrow> obj_get merged k = obj_get (base cfg) k)
            \<and> (\<forall>k. k \<in> set (obj_keys overlay)
                    \<and> (k \<notin> set (obj_keys (base cfg)) \<or> is_primitive (obj_get (base cfg) k)) \<longrightarrow>
                  obj_get merged k = obj_get overlay k)
            \<and> (\<forall>k. is_primitive (obj_get overlay k) \<longrightarrow> obj_get merged k = obj_get overlay k)
            \<and> (\<forall>k bb oo. obj_get (base cfg) k = JObj bb \<and> obj_get overlay k = JObj oo \<longrightarrow>
                  (\<exists>m. obj_get merged k = JObj m
                     \<and> (\<forall>k'. obj_get m k' =
                           (if k' \<in> set (obj_keys oo)
                            then merge_value (obj_get bb k') (obj_get oo k')
                            else obj_get bb k'))
                     \<and> (\<forall>k'. is_primitive (obj_get oo k') \<longrightarrow> obj_get m k' = obj_get oo k')))
            \<and> (\<forall>k bs os. obj_get (base cfg) k = JArr bs \<and> obj_get overlay k = JArr os \<longrightarrow>
                  (\<exists>ms. obj_get merged k = JArr ms
                     \<and> length ms = max (length bs) (length os)
                     \<and> (\<forall>i < length ms. ms ! i =
                           (if i < length os
                            then merge_value (if i < length bs then bs ! i else JUndefined) (os ! i)
                            else bs ! i))
                     \<and> (\<forall>i < length os. is_primitive (os ! i) \<longrightarrow> ms ! i = os ! i))))"
proof -
  let ?files = "getConfigFilesList glob_sync folder"
  have r: "loadConfig glob_sync readYamlFile folder = Inr (mergeConfigs cfg)"
    using assms(1) by (simp add: loadConfig_def)
  have ks: "set (obj_keys (langs cfg)) =
      {n. \<exists>f \<in> set ?files. n = removeExtension (basename f) \<and> n \<noteq> ''base'' \<and> n \<noteq> ''__proto__''}"
    and d: "distinct (obj_keys (langs cfg))"
    using readConfigFiles_langs [OF assms(1)] by simp_all
  have nb: "''base'' \<notin> set (obj_keys (langs cfg))"
    unfolding ks by simp
  have "set (obj_keys (langs cfg)) \<noteq> {}"
    unfolding ks using assms(2) by blast
  then have ne: "langs cfg \<noteq> []"
    by (auto simp: obj_keys_def)
  note m = mergeConfigs_langs [OF ne d nb]
  have each: "\<exists>merged. obj_get (mergeConfigs cfg) lang = JObj merged
            \<and> merged = lodash_merge [] [base cfg, overlay]
            \<and> set (obj_keys merged) = set (obj_keys (base cfg)) \<union> set (obj_keys overlay)
            \<and> (\<forall>k. k \<notin> set (obj_keys overlay) \<longrightarrow> obj_get merged k = obj_get (base cfg) k)
            \<and> (\<forall>k. k \<in> set (obj_keys overlay)
                    \<and> (k \<notin> set (obj_keys (base cfg)) \<or> is_primitive (obj_get (base cfg) k)) \<longrightarrow>
                  obj_get merged k = obj_get overlay k)
            \<and> (\<forall>k. is_primitive (obj_get overlay k) \<longrightarrow> obj_get merged k = obj_get overlay k)
            \<and> (\<forall>k bb oo. obj_get (base cfg) k = JObj bb \<and> obj_get overlay k = JObj oo \<longrightarrow>
                  (\<exists>m. obj_get merged k = JObj m
                     \<and> (\<forall>k'. obj_get m k' =
                           (if k' \<in> set (obj_keys oo)
                            then merge_value (obj_get bb k') (obj_get oo k')
                            else obj_get bb k'))
                     \<and> (\<forall>k'. is_primitive (obj_get oo k') \<longrightarrow> obj_get m k' = obj_get oo k')))
            \<and> (\<forall>k bs os. obj_get (base cfg) k = JArr bs \<and> obj_get overlay k = JArr os \<longrightarrow>
                  (\<exists>ms. obj_get merged k = JArr ms
                     \<and> length ms = max (length bs) (length os)
                     \<and> (\<forall>i < length ms. ms ! i =
                           (if i < length os
                            then merge_value (if i < length bs then bs ! i else JUndefined) (os ! i)
                            else bs ! i))
                     \<and> (\<forall>i < length os. is_primitive (os ! i) \<longrightarrow> ms ! i = os ! i)))"
    if lo: "(lang, overlay) \<in> set (langs cfg)" for lang overlay
  proof -
    have yo: "yaml_value (JObj overlay)"
      using assms(4) lo by blast
    have g: "obj_get (mergeConfigs cfg) lang = JObj (lodash_merge [] [base cfg, overlay])"
      using lo by (rule m(3))
    note rules = lodash_merge_rules [OF assms(3) yo refl]
    show ?thesis
      by (rule exI [of _ "lodash_merge [] [base cfg, overlay]"])
        (rule conjI [OF g conjI [OF refl rules]])
  qed
  then have all: "\<forall>(lang, overlay) \<in> set (langs cfg).
          \<exists>merged. obj_get (mergeConfigs cfg) lang = JObj merged
            \<and> merged = lodash_merge [] [base cfg, overlay]
            \<and> set (obj_keys merged) = set (obj_keys (base cfg)) \<union> set (obj_keys overlay)
            \<and> (\<forall>k. k \<notin> set (obj_keys overlay) \<longrightarrow> obj_get merged k = obj_get (base cfg) k)
            \<and> (\<forall>k. k \<in> set (obj_keys overlay)
                    \<and> (k \<notin> set (obj_keys (base cfg)) \<or> is_primitive (obj_get (base cfg) k)) \<longrightarrow>
                  obj_get merged k = obj_get overlay k)
            \<and> (\<forall>k. is_primitive (obj_get overlay k) \<longrightarrow> obj_get merged k = obj_get overlay k)
            \<and> (\<forall>k bb oo. obj_get (base cfg) k = JObj bb \<and> obj_get overlay k = JObj oo \<longrightarrow>
                  (\<exists>m. obj_get merged k = JObj m
                     \<and> (\<forall>k'. obj_get m k' =
                           (if k' \<in> set (obj_keys oo)
                            then merge_value (obj_get bb k') (obj_get oo k')
                            else obj_get bb k'))
                     \<and> (\<forall>k'. is_primitive (obj_get oo k') \<longrightarrow> obj_get m k' = obj_get oo k')))
            \<and> (\<forall>k bs os. obj_get (base cfg) k = JArr bs \<and> obj_get overlay k = JArr os \<longrightarrow>
                  (\<exists>ms. obj_get merged k = JArr ms
                     \<and> length ms = max (length bs) (length os)
                     \<and> (\<forall>i < length ms. ms ! i =
                           (if i < length os
                            then merge_value (if i < length bs then bs ! i else JUndefined) (os ! i)
                            else bs ! i))
                     \<and> (\<forall>i < length os. is_primitive (os ! i) \<longrightarrow> ms ! i = os ! i)))"
    by (intro ballI) (simp only: split_paired_all case_prod_conv)
  from r ks m(1) m(2) all show ?thesis
    by (intro exI [of _ "mergeConfigs cfg"] conjI)
qed

theorem loadConfig_languages_witness:
  "\<exists>result. loadConfig site_glob site_yaml ''site'' = Inr result
    \<and> set (obj_keys result) = {''base'', ''de''}
    \<and> obj_get result ''base'' = JObj site_base
    \<and> obj_get result ''de'' =
        JObj [(''theme'', JStr ''x''),
              (''title'', JStr ''Hallo''),
              (''menu'', JObj [(''home'', JStr ''Start''), (''about'', JStr ''About'')]),
              (''tags'', JArr [JNum 7, JNum 2, JNum 3]),
              (''lang'', JStr ''de'')]"
proof -
  let ?cfg = "\<lparr>base = site_base, langs = [(''de'', site_de)]\<rparr>"
  let ?de = "[(''theme'', JStr ''x''),
              (''title'', JStr ''Hallo''),
              (''menu'', JObj [(''home'', JStr ''Start''), (''about'', JStr ''About'')]),
              (''tags'', JArr [JNum 7, JNum 2, JNum 3]),
              (''lang'', JStr ''de'')]"
  have h1: "readConfigFiles site_yaml (getConfigFilesList site_glob ''site'') = Inr ?cfg"
    by code_simp
  have "removeExtension (basename ''site/de.yml'') \<noteq> ''base''
      \<and> removeExtension (basename ''site/de.yml'') \<noteq> ''__proto__''"
    by code_simp
  moreover have "''site/de.yml'' \<in> set (getConfigFilesList site_glob ''site'')"
    by (simp add: getConfigFilesList_def site_glob_def path_join_def)
  ultimately have h2: "\<exists>f \<in> set (getConfigFilesList site_glob ''site'').
      removeExtension (basename f) \<noteq> ''base'' \<and> removeExtension (basename f) \<noteq> ''__proto__''"
    by blast
  have h3: "yaml_value (JObj (base ?cfg))"
    by (simp add: site_base_def object_prototype_names_def)
  have h4: "\<forall>(lang, overlay) \<in> set (langs ?cfg). yaml_value (JObj overlay)"
    by (simp add: site_de_def object_prototype_names_def)
  have mg: "lodash_merge [] [site_base, site_de] = ?de"
    by code_simp
  from loadConfig_languages [OF h1 h2 h3 h4] obtain result
    where r: "loadConfig site_glob site_yaml ''site'' = Inr result"
      and ks: "set (obj_keys result) = insert ''base'' (set (obj_keys (langs ?cfg)))"
      and b: "obj_get result ''base'' = JObj (base ?cfg)"
      and each: "\<forall>(lang, overlay) \<in> set (langs ?cfg).
          \<exists>merged. obj_get result lang = JObj merged
            \<and> merged = lodash_merge [] [base ?cfg, overlay]
            \<and> set (obj_keys merged) = set (obj_keys (base ?cfg)) \<union> set (obj_keys overlay)
            \<and> (\<forall>k. k \<notin> set (obj_keys overlay) \<longrightarrow> obj_get merged k = obj_get (base ?cfg) k)
            \<and> (\<forall>k. k \<in> set (obj_keys overlay)
                    \<and> (k \<notin> set (obj_keys (base ?cfg)) \<or> is_primitive (obj_get (base ?cfg) k)) \<longrightarrow>
                  obj_get merged k = obj_get overlay k)
            \<and> (\<forall>k. is_primitive (obj_get overlay k) \<longrightarrow> obj_get merged k = obj_get overlay k)
            \<and> (\<forall>k bb oo. obj_get (base ?cfg) k = JObj bb \<and> obj_get overlay k = JObj oo \<longrightarrow>
                  (\<exists>m. obj_get merged k = JObj m
                     \<and> (\<forall>k'. obj_get m k' =
                           (if k' \<in> set (obj_keys oo)
                            then merge_value (obj_get bb k') (obj_get oo k')
                            else obj_get bb k'))
                     \<and> (\<forall>k'. is_primitive (obj_get oo k') \<longrightarrow> obj_get m k' = obj_get oo k')))
            \<and> (\<forall>k bs os. obj_get (base ?cfg) k = JArr bs \<and> obj_get overlay k = JArr os \<longrightarrow>
                  (\<exists>ms. obj_get merged k = JArr ms
                     \<and> length ms = max (length bs) (length os)
                     \<and> (\<forall>i < length ms. ms ! i =
                           (if i < length os
                            then merge_value (if i < length bs then bs ! i else JUndefined) (os ! i)
                            else bs ! i))
                     \<and> (\<forall>i < length os. is_primitive (os ! i) \<longrightarrow> ms ! i = os ! i)))"
    by (elim exE conjE)
  have ks': "set (obj_keys result) = {''base'', ''de''}"
    using ks by (simp add: obj_keys_def)
  have b': "obj_get result ''base'' = JObj site_base"
    using b by simp
  have "(''de'', site_de) \<in> set (langs ?cfg)"
    by simp
  with each obtain merged where "obj_get result ''de'' = JObj merged"
    and "merged = lodash_merge [] [base ?cfg, site_de]"
    by blast
  then have e': "obj_get result ''de'' = JObj ?de"
    by (simp add: mg)
  from r ks' b' e' show ?thesis
    by (intro exI [of _ result] conjI)
qed

text \<open>
  C1 as the spec states it fails on the spec's own example: over \<open>base.yml\<close> with
  \<open>{theme: "x"}\<close> and \<open>en.yml\<close> with \<open>{title: "Hi"}\<close> the result has the top-level keys
  \<open>base\<close> and \<open>en\<close>, not \<open>en\<close> alone.
\<close>

theorem loadConfig_base_counterexample:
  "loadConfig example_glob example_yaml ''config'' =
     Inr [(''base'', JObj [(''theme'', JStr ''x'')]),
          (''en'', JObj [(''theme'', JStr ''x''), (''title'', JStr ''Hi'')])]
   \<and> obj_keys [(''base'', JObj [(''theme'', JStr ''x'')]),
          (''en'', JObj [(''theme'', JStr ''x''), (''title'', JStr ''Hi'')])] = [''base'', ''en'']"
  by code_simp

subsection \<open>Splitting a string\<close>

lemma split_from_none:
  assumes "\<forall>i. take (length sep) (drop i s) \<noteq> sep"
  shows "split_from sep piece s = [rev piece @ s]"
  using assms
proof (induction s arbitrary: piece)
  case Nil
  then show ?case by simp
next
  case (Cons c s)
  have "take (length sep) (c # s) \<noteq> sep"
    using Cons.prems [rule_format, of 0] by simp
  moreover have "\<forall>i. take (length sep) (drop i s) \<noteq> sep"
  proof
    fix i
    show "take (length sep) (drop i s) \<noteq> sep"
      using Cons.prems [rule_format, of "Suc i"] by simp
  qed
  ultimately show ?case
    using Cons.IH [of "c # piece"] by simp
qed

lemma split_from_first:
  assumes "sep \<noteq> []"
    and "\<forall>i < length pre. take (length sep) (drop i (pre @ sep @ post)) \<noteq> sep"
  shows "split_from sep piece (pre @ sep @ post) = (rev piece @ pre) # split_from sep [] post"
  using assms(2)
proof (induction pre arbitrary: piece)
  case Nil
  obtain c s where cs: "sep @ post = c # s"
    using assms(1) by (cases sep) auto
  have "take (length sep) (c # s) = sep" "drop (length sep) (c # s) = post"
    unfolding cs [symmetric] by simp_all
  then have "split_from sep piece (c # s) = rev piece # split_from sep [] post"
    using assms(1) by simp
  then show ?case
    using cs by simp
next
  case (Cons c pre)
  have "take (length sep) (c # pre @ sep @ post) \<noteq> sep"
    using Cons.prems [rule_format, of 0] by simp
  moreover have "\<forall>i < length pre. take (length sep) (drop i (pre @ sep @ post)) \<noteq> sep"
  proof (intro allI impI)
    fix i
    assume "i < length pre"
    then show "take (length sep) (drop i (pre @ sep @ post)) \<noteq> sep"
      using Cons.prems [rule_format, of "Suc i"] by simp
  qed
  ultimately show ?case
    using Cons.IH [of "c # piece"] by simp
qed

lemma occurrence_at:
  assumes "take (length sep) (drop i s) = sep"
  shows "s = take i s @ sep @ drop (i + length sep) s"
proof -
  have "drop i s = take (length sep) (drop i s) @ drop (length sep) (drop i s)"
    by (rule append_take_drop_id [symmetric])
  then have "drop i s = sep @ drop (length sep) (drop i s)"
    using assms by simp
  then have "drop i s = sep @ drop (i + length sep) s"
    by (simp add: add.commute)
  then show ?thesis
    by (metis append_take_drop_id)
qed

lemma no_sublist_no_occurrence:
  assumes "\<not> sublist sep s"
  shows "\<forall>i. take (length sep) (drop i s) \<noteq> sep"
proof (intro allI notI)
  fix i
  assume "take (length sep) (drop i s) = sep"
  then have "s = take i s @ sep @ drop (i + length sep) s"
    by (rule occurrence_at)
  then have "sublist sep s"
    unfolding sublist_def by blast
  with assms show False by simp
qed

lemma first_occurrence_before:
  assumes "sep \<noteq> []"
    and "\<forall>pre' post'. pre @ sep @ post = pre' @ sep @ post' \<longrightarrow> length pre \<le> length pre'"
  shows "\<forall>i < length pre. take (length sep) (drop i (pre @ sep @ post)) \<noteq> sep"
proof (intro allI impI notI)
  fix i
  let ?s = "pre @ sep @ post"
  assume i: "i < length pre" and t: "take (length sep) (drop i ?s) = sep"
  have "?s = take i ?s @ sep @ drop (i + length sep) ?s"
    using t by (rule occurrence_at)
  then have "length pre \<le> length (take i ?s)"
    using assms(2) by blast
  then show False
    using i by simp
qed

lemma first_occurrenceI:
  assumes "\<forall>i < length pre. take (length sep) (drop i (pre @ sep @ post)) \<noteq> sep"
  shows "\<forall>pre' post'. pre @ sep @ post = pre' @ sep @ post' \<longrightarrow> length pre \<le> length pre'"
proof (intro allI impI)
  fix pre' post'
  assume e: "pre @ sep @ post = pre' @ sep @ post'"
  show "length pre \<le> length pre'"
  proof (rule ccontr)
    assume "\<not> length pre \<le> length pre'"
    then have "length pre' < length pre" by simp
    moreover have "take (length sep) (drop (length pre') (pre @ sep @ post)) = sep"
      unfolding e by simp
    ultimately show False
      using assms by blast
  qed
qed

lemma js_split_none:
  assumes "\<not> sublist sep s"
  shows "js_split sep s = [s]"
  using split_from_none [OF no_sublist_no_occurrence [OF assms], of "[]"]
  by (simp add: js_split_def)

lemma js_split_first:
  assumes "sep \<noteq> []"
    and "\<forall>pre' post'. pre @ sep @ post = pre' @ sep @ post' \<longrightarrow> length pre \<le> length pre'"
  shows "js_split sep (pre @ sep @ post) = pre # js_split sep post"
  using split_from_first [OF assms(1) first_occurrence_before [OF assms], of "[]"]
  by (simp add: js_split_def)

subsection \<open>Parsing a page\<close>

lemma js_split_nonempty: "js_split sep s \<noteq> []"
proof -
  have "split_from sep piece s \<noteq> []" for piece
    by (induction sep piece s rule: split_from.induct) auto
  then show ?thesis
    by (simp add: js_split_def)
qed

lemma cut_content_unset:
  assumes "falsy_string cutTag"
  shows "cut_content cutTag content = (JUndefined, JUndefined)"
  using assms by (simp add: cut_content_def falsy_string_def)

lemma cut_content_absent:
  assumes "tag \<noteq> []" and "\<not> sublist tag content"
  shows "cut_content (Some tag) content = (JStr content, JUndefined)"
  using assms js_split_none [OF assms(2)]
  by (simp add: cut_content_def truthy_string_def str_at_def)

lemma cut_content_first:
  assumes "tag \<noteq> []"
    and "\<forall>pre' post'. pre @ tag @ post = pre' @ tag @ post' \<longrightarrow> length pre \<le> length pre'"
  shows "fst (cut_content (Some tag) (pre @ tag @ post)) = JStr pre"
    and "\<exists>m. snd (cut_content (Some tag) (pre @ tag @ post)) = JStr m"
    and "\<not> sublist tag post \<Longrightarrow> snd (cut_content (Some tag) (pre @ tag @ post)) = JStr post"
proof -
  have s: "js_split tag (pre @ tag @ post) = pre # js_split tag post"
    using assms by (rule js_split_first)
  obtain m ms where m: "js_split tag post = m # ms"
    using js_split_nonempty [of tag post] by (cases "js_split tag post") auto
  have c: "cut_content (Some tag) (pre @ tag @ post) = (JStr pre, JStr m)"
    using assms(1) by (simp add: cut_content_def truthy_string_def str_at_def s m)
  show "fst (cut_content (Some tag) (pre @ tag @ post)) = JStr pre"
    by (simp add: c)
  show "\<exists>m. snd (cut_content (Some tag) (pre @ tag @ post)) = JStr m"
    by (simp add: c)
  show "snd (cut_content (Some tag) (pre @ tag @ post)) = JStr post" if "\<not> sublist tag post"
    using js_split_none [OF that] m by (simp add: c)
qed

lemma parsePage_ok:
  assumes "fastmatter source = Inr (raw, body)"
    and "parseCustomFields raw fieldParsers = Inr attributes"
    and "renderByType body filepath renderers = Inr content"
  shows "parsePage fastmatter source folder filepath renderers fieldParsers cutTag =
    Inr (merge_object attributes
          [(''sourcePath'', JStr filepath),
           (''content'', JStr content),
           (''excerpt'', fst (cut_content cutTag content)),
           (''more'', snd (cut_content cutTag content)),
           (''url'', JStr (filepathToUrl filepath))])"
  using assms
  by (simp add: parsePage_def lodash_merge_def Let_def split: prod.splits)

lemma structural_fields:
  fixes attributes :: jsobj and sp c e m u :: jsval
  defines "doc \<equiv> merge_object attributes
          [(''sourcePath'', sp), (''content'', c), (''excerpt'', e), (''more'', m), (''url'', u)]"
  shows "obj_get doc ''sourcePath'' = merge_value (obj_get attributes ''sourcePath'') sp"
    and "obj_get doc ''content'' = merge_value (obj_get attributes ''content'') c"
    and "obj_get doc ''excerpt'' = merge_value (obj_get attributes ''excerpt'') e"
    and "obj_get doc ''more'' = merge_value (obj_get attributes ''more'') m"
    and "obj_get doc ''url'' = merge_value (obj_get attributes ''url'') u"
proof -
  let ?src = "[(''sourcePath'', sp), (''content'', c), (''excerpt'', e), (''more'', m), (''url'', u)]"
  have d: "distinct (obj_keys ?src)"
    by (simp add: obj_keys_def)
  note g = obj_get_merge_object [OF d, of attributes]
  show "obj_get doc ''sourcePath'' = merge_value (obj_get attributes ''sourcePath'') sp"
    unfolding doc_def g by (simp add: obj_keys_def)
  show "obj_get doc ''content'' = merge_value (obj_get attributes ''content'') c"
    unfolding doc_def g by (simp add: obj_keys_def)
  show "obj_get doc ''excerpt'' = merge_value (obj_get attributes ''excerpt'') e"
    unfolding doc_def g by (simp add: obj_keys_def)
  show "obj_get doc ''more'' = merge_value (obj_get attributes ''more'') m"
    unfolding doc_def g by (simp add: obj_keys_def)
  show "obj_get doc ''url'' = merge_value (obj_get attributes ''url'') u"
    unfolding doc_def g by (simp add: obj_keys_def)
qed

lemma cut_content_values:
  "fst (cut_content cutTag content) = JUndefined \<or> (\<exists>s. fst (cut_content cutTag content) = JStr s)"
  "snd (cut_content cutTag content) = JUndefined \<or> (\<exists>s. snd (cut_content cutTag content) = JStr s)"
  by (auto simp: cut_content_def str_at_def Let_def split: option.splits)

text \<open>
  C2, as the code has it. Let the page parse (the splitter, the field parsers and the
  renderer return). When \<open>cutTag\<close> is missing or empty no cut is made, and \<open>excerpt\<close>
  and \<open>more\<close> of the Document are what the parsed front matter holds, absent when
  it holds none. When \<open>cutTag\<close> is set and does not occur in the rendered content,
  \<open>excerpt\<close> is the whole content and \<open>more\<close> is again what the front matter holds.
  When \<open>cutTag\<close> is set and occurs, \<open>excerpt\<close> is the text before its first
  occurrence and \<open>more\<close> is a string, the text after the occurrence when the tag
  occurs once.
\<close>

theorem parsePage_cut:
  assumes "fastmatter source = Inr (raw, body)"
    and "parseCustomFields raw fieldParsers = Inr attributes"
    and "renderByType body filepath renderers = Inr content"
  shows "\<exists>doc. parsePage fastmatter source folder filepath renderers fieldParsers cutTag = Inr doc
    \<and> (falsy_string cutTag \<longrightarrow>
          obj_get doc ''excerpt'' = obj_get attributes ''excerpt''
        \<and> obj_get doc ''more'' = obj_get attributes ''more'')
    \<and> (\<forall>tag. cutTag = Some tag \<and> tag \<noteq> [] \<and> \<not> sublist tag content \<longrightarrow>
          obj_get doc ''excerpt'' = JStr content
        \<and> obj_get doc ''more'' = obj_get attributes ''more'')
    \<and> (\<forall>tag pre post. cutTag = Some tag \<and> tag \<noteq> [] \<and> content = pre @ tag @ post
          \<and> (\<forall>pre' post'. content = pre' @ tag @ post' \<longrightarrow> length pre \<le> length pre') \<longrightarrow>
          obj_get doc ''excerpt'' = JStr pre
        \<and> (\<exists>m. obj_get doc ''more'' = JStr m)
        \<and> (\<not> sublist tag post \<longrightarrow> obj_get doc ''more'' = JStr post))"
proof -
  define doc where "doc = merge_object attributes
          [(''sourcePath'', JStr filepath),
           (''content'', JStr content),
           (''excerpt'', fst (cut_content cutTag content)),
           (''more'', snd (cut_content cutTag content)),
           (''url'', JStr (filepathToUrl filepath))]"
  have r: "parsePage fastmatter source folder filepath renderers fieldParsers cutTag = Inr doc"
    unfolding doc_def using assms by (rule parsePage_ok)
  have e: "obj_get doc ''excerpt'' =
      merge_value (obj_get attributes ''excerpt'') (fst (cut_content cutTag content))"
    and m: "obj_get doc ''more'' =
      merge_value (obj_get attributes ''more'') (snd (cut_content cutTag content))"
    unfolding doc_def by (rule structural_fields)+
  have a: "obj_get doc ''excerpt'' = obj_get attributes ''excerpt''
        \<and> obj_get doc ''more'' = obj_get attributes ''more''" if "falsy_string cutTag"
    using cut_content_unset [OF that] by (simp add: e m)
  have b: "obj_get doc ''excerpt'' = JStr content
        \<and> obj_get doc ''more'' = obj_get attributes ''more''"
    if "cutTag = Some tag \<and> tag \<noteq> [] \<and> \<not> sublist tag content" for tag
    using that cut_content_absent [of tag content] by (simp add: e m)
  have c: "obj_get doc ''excerpt'' = JStr pre
        \<and> (\<exists>m. obj_get doc ''more'' = JStr m)
        \<and> (\<not> sublist tag post \<longrightarrow> obj_get doc ''more'' = JStr post)"
    if h: "cutTag = Some tag \<and> tag \<noteq> [] \<and> content = pre @ tag @ post
          \<and> (\<forall>pre' post'. content = pre' @ tag @ post' \<longrightarrow> length pre \<le> length pre')"
    for tag pre post
  proof -
    have t: "tag \<noteq> []" and ct: "cutTag = Some tag" and cn: "content = pre @ tag @ post"
      using h by simp_all
    have f: "\<forall>pre' post'. pre @ tag @ post = pre' @ tag @ post' \<longrightarrow> length pre \<le> length pre'"
      using h by simp
    note cc = cut_content_first [OF t f]
    have 1: "obj_get doc ''excerpt'' = JStr pre"
      by (simp add: e ct cn cc(1))
    obtain m' where m': "snd (cut_content (Some tag) (pre @ tag @ post)) = JStr m'"
      using cc(2) by blast
    have 2: "\<exists>m. obj_get doc ''more'' = JStr m"
      by (simp add: m ct cn m')
    have 3: "obj_get doc ''more'' = JStr post" if "\<not> sublist tag post"
      by (simp add: m ct cn cc(3) [OF that])
    from 1 2 3 show ?thesis by blast
  qed
  from r a b c show ?thesis
    by blast
qed

theorem parsePage_cut_witness:
  "(\<exists>doc. parsePage example_fastmatter ''Hello<!--more-->World'' ''src'' ''post.md'' [] []
           (Some ''<!--more-->'') = Inr doc
      \<and> obj_get doc ''excerpt'' = JStr ''Hello''
      \<and> obj_get doc ''more'' = JStr ''World'')
   \<and> (\<exists>doc. parsePage example_fastmatter ''Hello<!--more-->World'' ''src'' ''post.md'' [] []
           None = Inr doc
      \<and> obj_get doc ''excerpt'' = JUndefined
      \<and> obj_get doc ''more'' = JUndefined)"
proof -
  let ?s = "''Hello<!--more-->World''" and ?tag = "''<!--more-->''"
  let ?attrs = "[(''title'', JStr ''Post'')]"
  have h1: "example_fastmatter ?s = Inr (?attrs, ?s)"
    by (simp add: example_fastmatter_def)
  have h2: "parseCustomFields ?attrs [] = Inr ?attrs"
    by (simp add: parseCustomFields_def lodash_merge_def)
  have h3: "renderByType ?s ''post.md'' [] = Inr ?s"
    by (simp add: renderByType_def)
  have s: "?s = ''Hello'' @ ?tag @ ''World''"
    by simp
  have "\<forall>i < length ''Hello''.
      take (length ?tag) (drop i (''Hello'' @ ?tag @ ''World'')) \<noteq> ?tag"
    by code_simp
  then have f: "\<forall>pre' post'. ?s = pre' @ ?tag @ post' \<longrightarrow> length ''Hello'' \<le> length pre'"
    unfolding s by (rule first_occurrenceI)
  have n: "\<not> sublist ?tag ''World''"
    by code_simp
  have fs: "falsy_string None" "\<not> falsy_string (Some ?tag)"
    by (simp_all add: falsy_string_def truthy_string_def)
  have a: "obj_get ?attrs ''excerpt'' = JUndefined" "obj_get ?attrs ''more'' = JUndefined"
    by simp_all
  obtain doc where d: "parsePage example_fastmatter ?s ''src'' ''post.md'' [] [] (Some ?tag) = Inr doc"
    and c: "\<forall>tag pre post. Some ?tag = Some tag \<and> tag \<noteq> [] \<and> ?s = pre @ tag @ post
          \<and> (\<forall>pre' post'. ?s = pre' @ tag @ post' \<longrightarrow> length pre \<le> length pre') \<longrightarrow>
          obj_get doc ''excerpt'' = JStr pre
        \<and> (\<exists>m. obj_get doc ''more'' = JStr m)
        \<and> (\<not> sublist tag post \<longrightarrow> obj_get doc ''more'' = JStr post)"
    using parsePage_cut [where fastmatter = example_fastmatter and source = ?s and folder = "''src''"
        and cutTag = "Some ?tag", OF h1 h2 h3] by (elim exE conjE)
  have pre: "Some ?tag = Some ?tag \<and> ?tag \<noteq> [] \<and> ?s = ''Hello'' @ ?tag @ ''World''
          \<and> (\<forall>pre' post'. ?s = pre' @ ?tag @ post' \<longrightarrow> length ''Hello'' \<le> length pre')"
    by (intro conjI refl f s) simp
  note c' = c [rule_format, OF pre]
  have e1: "obj_get doc ''excerpt'' = JStr ''Hello''"
    using c' by (rule conjunct1)
  have "\<not> sublist ?tag ''World'' \<longrightarrow> obj_get doc ''more'' = JStr ''World''"
    by (rule c' [THEN conjunct2, THEN conjunct2])
  then have m1: "obj_get doc ''more'' = JStr ''World''"
    using n by (rule mp)
  from d e1 m1 have 1: "\<exists>doc. parsePage example_fastmatter ?s ''src'' ''post.md'' [] [] (Some ?tag) = Inr doc
      \<and> obj_get doc ''excerpt'' = JStr ''Hello'' \<and> obj_get doc ''more'' = JStr ''World''"
    by (intro exI [of _ doc] conjI)
  obtain doc' where d': "parsePage example_fastmatter ?s ''src'' ''post.md'' [] [] None = Inr doc'"
    and u: "falsy_string None \<longrightarrow>
          obj_get doc' ''excerpt'' = obj_get ?attrs ''excerpt''
        \<and> obj_get doc' ''more'' = obj_get ?attrs ''more''"
    using parsePage_cut [where fastmatter = example_fastmatter and source = ?s and folder = "''src''"
        and cutTag = None, OF h1 h2 h3] by (elim exE conjE)
  from u fs(1) have u': "obj_get doc' ''excerpt'' = obj_get ?attrs ''excerpt''
        \<and> obj_get doc' ''more'' = obj_get ?attrs ''more''"
    by (rule mp)
  have e2: "obj_get doc' ''excerpt'' = JUndefined"
    using u' [THEN conjunct1] by (simp only: a)
  have m2: "obj_get doc' ''more'' = JUndefined"
    using u' [THEN conjunct2] by (simp only: a)
  from d' e2 m2 have 2: "\<exists>doc. parsePage example_fastmatter ?s ''src'' ''post.md'' [] [] None = Inr doc
      \<and> obj_get doc ''excerpt'' = JUndefined \<and> obj_get doc ''more'' = JUndefined"
    by (intro exI [of _ doc'] conjI)
  from 1 2 show ?thesis
    by (rule conjI)
qed

text \<open>
  C2 as the spec states it fails where the cut tag is set and does not occur in the
  content: \<open>split\<close> then gives the whole content as its only piece, so \<open>excerpt\<close> is
  defined (it is the whole content) while \<open>more\<close> is absent.
\<close>

theorem parsePage_cut_counterexample:
  "parsePage example_fastmatter ''Hello World'' ''src'' ''post.md'' [] [] (Some ''<!--more-->'') =
     Inr [(''title'', JStr ''Post''),
          (''sourcePath'', JStr ''post.md''),
          (''content'', JStr ''Hello World''),
          (''excerpt'', JStr ''Hello World''),
          (''more'', JUndefined),
          (''url'', JStr ''/post'')]
   \<and> \<not> sublist ''<!--more-->'' ''Hello World''"
  by code_simp

text \<open>
  C3, as the code has it. Let the page parse. The Document's \<open>sourcePath\<close>,
  \<open>content\<close> and \<open>url\<close> are the relative path, the rendered body and the derived
  URL, whatever the front matter holds under these names. Its \<open>excerpt\<close> and \<open>more\<close>
  are the results of the cut whenever the cut produced them; a result that is
  \<open>undefined\<close> does not displace a value of the front matter.
\<close>

theorem parsePage_structural_fields:
  assumes "fastmatter source = Inr (raw, body)"
    and "parseCustomFields raw fieldParsers = Inr attributes"
    and "renderByType body filepath renderers = Inr content"
  shows "\<exists>doc. parsePage fastmatter source folder filepath renderers fieldParsers cutTag = Inr doc
    \<and> obj_get doc ''sourcePath'' = JStr filepath
    \<and> obj_get doc ''content'' = JStr content
    \<and> obj_get doc ''url'' = JStr (filepathToUrl filepath)
    \<and> (fst (cut_content cutTag content) \<noteq> JUndefined \<longrightarrow>
          obj_get doc ''excerpt'' = fst (cut_content cutTag content))
    \<and> (snd (cut_content cutTag content) \<noteq> JUndefined \<longrightarrow>
          obj_get doc ''more'' = snd (cut_content cutTag content))"
proof -
  define doc where "doc = merge_object attributes
          [(''sourcePath'', JStr filepath),
           (''content'', JStr content),
           (''excerpt'', fst (cut_content cutTag content)),
           (''more'', snd (cut_content cutTag content)),
           (''url'', JStr (filepathToUrl filepath))]"
  have r: "parsePage fastmatter source folder filepath renderers fieldParsers cutTag = Inr doc"
    unfolding doc_def using assms by (rule parsePage_ok)
  note f = structural_fields [of attributes "JStr filepath" "JStr content"
      "fst (cut_content cutTag content)" "snd (cut_content cutTag content)"
      "JStr (filepathToUrl filepath)", folded doc_def]
  have 1: "obj_get doc ''sourcePath'' = JStr filepath"
    by (simp add: f(1))
  have 2: "obj_get doc ''content'' = JStr content"
    by (simp add: f(2))
  have 3: "obj_get doc ''url'' = JStr (filepathToUrl filepath)"
    by (simp add: f(5))
  have 4: "obj_get doc ''excerpt'' = fst (cut_content cutTag content)"
    if "fst (cut_content cutTag content) \<noteq> JUndefined"
    using that cut_content_values(1) [of cutTag content] by (auto simp: f(3))
  have 5: "obj_get doc ''more'' = snd (cut_content cutTag content)"
    if "snd (cut_content cutTag content) \<noteq> JUndefined"
    using that cut_content_values(2) [of cutTag content] by (auto simp: f(4))
  from r 1 2 3 4 5 show ?thesis
    by blast
qed

theorem parsePage_structural_fields_witness:
  "\<exists>doc. parsePage example_fastmatter_more ''Hello<!--more-->World'' ''src'' ''post.md'' [] []
           (Some ''<!--more-->'') = Inr doc
      \<and> obj_get doc ''sourcePath'' = JStr ''post.md''
      \<and> obj_get doc ''content'' = JStr ''Hello<!--more-->World''
      \<and> obj_get doc ''url'' = JStr ''/post''
      \<and> obj_get doc ''excerpt'' = JStr ''Hello''
      \<and> obj_get doc ''more'' = JStr ''World''"
proof -
  let ?s = "''Hello<!--more-->World''" and ?tag = "''<!--more-->''"
  let ?attrs = "[(''title'', JStr ''Post''), (''more'', JStr ''Read on'')]"
  have h1: "example_fastmatter_more ?s = Inr (?attrs, ?s)"
    by (simp add: example_fastmatter_more_def)
  have h2: "parseCustomFields ?attrs [] = Inr ?attrs"
    by (simp add: parseCustomFields_def lodash_merge_def)
  have h3: "renderByType ?s ''post.md'' [] = Inr ?s"
    by (simp add: renderByType_def)
  have cc: "cut_content (Some ?tag) ?s = (JStr ''Hello'', JStr ''World'')"
    by code_simp
  have u: "filepathToUrl ''post.md'' = ''/post''"
    by code_simp
  obtain doc
    where d: "parsePage example_fastmatter_more ?s ''src'' ''post.md'' [] [] (Some ?tag) = Inr doc"
      and 1: "obj_get doc ''sourcePath'' = JStr ''post.md''"
      and 2: "obj_get doc ''content'' = JStr ?s"
      and 3: "obj_get doc ''url'' = JStr (filepathToUrl ''post.md'')"
      and 4: "fst (cut_content (Some ?tag) ?s) \<noteq> JUndefined \<longrightarrow>
          obj_get doc ''excerpt'' = fst (cut_content (Some ?tag) ?s)"
      and 5: "snd (cut_content (Some ?tag) ?s) \<noteq> JUndefined \<longrightarrow>
          obj_get doc ''more'' = snd (cut_content (Some ?tag) ?s)"
    using parsePage_structural_fields [where fastmatter = example_fastmatter_more
        and source = ?s and folder = "''src''" and cutTag = "Some ?tag", OF h1 h2 h3]
    by (elim exE conjE)
  have u3: "obj_get doc ''url'' = JStr ''/post''"
    using 3 by (simp only: u)
  have e4: "obj_get doc ''excerpt'' = JStr ''Hello''"
    using 4 by (simp add: cc)
  have m5: "obj_get doc ''more'' = JStr ''World''"
    using 5 by (simp add: cc)
  from d 1 2 u3 e4 m5 show ?thesis
    by (intro exI [of _ doc] conjI)
qed

text \<open>
  C3 as the spec states it fails for \<open>more\<close> (and likewise \<open>excerpt\<close>) when no cut is
  made: with the front-matter field \<open>more\<close> and no \<open>cutTag\<close>, the derived value is
  \<open>undefined\<close>, which the merge skips, and the Document carries the value of the front
  matter.
\<close>

theorem parsePage_front_matter_counterexample:
  "parsePage example_fastmatter_more ''Hello'' ''src'' ''post.md'' [] [] None =
     Inr [(''title'', JStr ''Post''),
          (''more'', JStr ''Read on''),
          (''sourcePath'', JStr ''post.md''),
          (''content'', JStr ''Hello''),
          (''excerpt'', JUndefined),
          (''url'', JStr ''/post'')]
   \<and> cut_content None ''Hello'' = (JUndefined, JUndefined)
   \<and> example_fastmatter_more ''Hello'' =
       Inr ([(''title'', JStr ''Post''), (''more'', JStr ''Read on'')], ''Hello'')"
  by code_simp

subsection \<open>Field parsers\<close>

lemma parseCustomFields_loop_throws:
  assumes "\<forall>(n, p) \<in> set before. \<exists>v. p (js_get attributes n) = Inr v"
    and "parse (js_get attributes name) = Inl e"
  shows "parseCustomFields_loop attributes parsed (before @ (name, parse) # rest) = Inl e"
  using assms(1)
proof (induction before arbitrary: parsed)
  case Nil
  then show ?case
    using assms(2) by simp
next
  case (Cons np before)
  obtain n p where np: "np = (n, p)" by (cases np)
  obtain v where v: "p (js_get attributes n) = Inr v"
    using Cons.prems np by auto
  have "\<forall>(n, p) \<in> set before. \<exists>v. p (js_get attributes n) = Inr v"
    using Cons.prems by simp
  then have "parseCustomFields_loop attributes (obj_set parsed n v)
      (before @ (name, parse) # rest) = Inl e"
    by (rule Cons.IH)
  then show ?case
    by (simp add: np v)
qed

text \<open>
  C4, as the code has it. When the transform of a field throws on what
  \<open>attributes[name]\<close> reads (the transforms of the fields before it, in the order of
  the parser mapping, having returned),
  \<open>parseCustomFields\<close> fails, and so does \<open>parsePage\<close> once the front matter is
  split. The failure is the error that the transform threw, as it was thrown: the code
  catches nothing and adds no field name to it.
\<close>

theorem parseCustomFields_throws:
  assumes "fieldParsers = before @ (name, parse) # rest"
    and "\<forall>(n, p) \<in> set before. \<exists>v. p (js_get attributes n) = Inr v"
    and "parse (js_get attributes name) = Inl e"
  shows "parseCustomFields attributes fieldParsers = Inl e
    \<and> (fastmatter source = Inr (attributes, body) \<longrightarrow>
         parsePage fastmatter source folder filepath renderers fieldParsers cutTag = Inl e)"
proof -
  have "parseCustomFields_loop attributes [] fieldParsers = Inl e"
    unfolding assms(1) using assms(2,3) by (rule parseCustomFields_loop_throws)
  then have p: "parseCustomFields attributes fieldParsers = Inl e"
    by (simp add: parseCustomFields_def)
  then have "parsePage fastmatter source folder filepath renderers fieldParsers cutTag = Inl e"
    if "fastmatter source = Inr (attributes, body)"
    using that by (simp add: parsePage_def)
  with p show ?thesis
    by blast
qed

theorem parseCustomFields_throws_witness:
  "parseCustomFields [(''title'', JStr ''Post'')]
       [(''title'', title_parser), (''date'', failing_parser)] = Inl (Error ''Invalid date'')
   \<and> parsePage example_fastmatter ''Hello'' ''src'' ''post.md'' []
       [(''title'', title_parser), (''date'', failing_parser)] None = Inl (Error ''Invalid date'')"
proof -
  let ?attrs = "[(''title'', JStr ''Post'')]"
  have h1: "[(''title'', title_parser), (''date'', failing_parser)] =
      [(''title'', title_parser)] @ (''date'', failing_parser) # []"
    by simp
  have h2: "\<forall>(n, p) \<in> set [(''title'', title_parser)]. \<exists>v. p (js_get ?attrs n) = Inr v"
    by (simp add: title_parser_def js_get_def obj_keys_def)
  have h3: "failing_parser (js_get ?attrs ''date'') = Inl (Error ''Invalid date'')"
    by (simp add: failing_parser_def)
  have fm: "example_fastmatter ''Hello'' = Inr (?attrs, ''Hello'')"
    by (simp add: example_fastmatter_def)
  note t = parseCustomFields_throws [where fastmatter = example_fastmatter
      and source = "''Hello''" and body = "''Hello''" and folder = "''src''"
      and filepath = "''post.md''" and renderers = "[]" and cutTag = None, OF h1 h2 h3]
  from t [THEN conjunct1] t [THEN conjunct2, THEN mp, OF fm] show ?thesis
    by (rule conjI)
qed

text \<open>
  C4 as the spec states it fails: the failure carries no field name. The same transform
  throwing under the field \<open>date\<close> and under the field \<open>published\<close> gives the same
  failure, the transform's own error.
\<close>

theorem parseCustomFields_untagged_counterexample:
  "parseCustomFields [(''title'', JStr ''Post'')] [(''date'', failing_parser)] =
     Inl (Error ''Invalid date'')
   \<and> parseCustomFields [(''title'', JStr ''Post'')] [(''published'', failing_parser)] =
     Inl (Error ''Invalid date'')
   \<and> parsePage example_fastmatter ''Hello'' ''src'' ''post.md'' [] [(''date'', failing_parser)] None =
     Inl (Error ''Invalid date'')"
  by (simp add: parseCustomFields_def failing_parser_def parsePage_def example_fastmatter_def)

subsection \<open>Filtering\<close>

lemma regexp_test_stateless:
  "\<not> global_or_sticky re \<Longrightarrow>
   regexp_test re s i = (match_from re s 0 \<noteq> None, i)"
  by (simp add: regexp_test_def split: option.splits)

lemma matches_stateless:
  assumes "stateless criteria"
  shows "matches d criteria li = (fst (matches d criteria (\<lambda>r. 0)), li)"
  using assms
proof (induction criteria)
  case Nil
  then show ?case by simp
next
  case (Cons fc criteria)
  obtain field c where fc: "fc = (field, c)" by (cases fc)
  have rest: "stateless criteria"
    using Cons.prems by (simp add: stateless_def)
  note ih = Cons.IH [OF rest]
  have z: "(\<lambda>r. 0 :: nat)(r := 0) = (\<lambda>r. 0)" for r :: nat
    by auto
  show ?case
  proof (cases c)
    case (Exact v)
    then show ?thesis
      using ih by (simp add: fc)
  next
    case (Pattern re r)
    then have "\<not> global_or_sticky re"
      using Cons.prems by (simp add: stateless_def fc)
    then have t: "regexp_test re s i = (match_from re s 0 \<noteq> None, i)" for s i
      by (rule regexp_test_stateless)
    show ?thesis
      using ih by (simp add: fc Pattern t z Let_def split: sum.splits)
  qed
qed

lemma filterDocuments_stateless:
  assumes "stateless criteria"
  shows "snd (filterDocuments docs criteria li) = li
    \<and> (\<forall>kept. fst (filterDocuments docs criteria li) = Inr kept \<longrightarrow>
          kept = filter (\<lambda>d. fst (matches d criteria (\<lambda>r. 0)) = Inr True) docs)"
proof (induction docs)
  case Nil
  then show ?case by simp
next
  case (Cons d docs)
  have m: "matches d criteria li = (fst (matches d criteria (\<lambda>r. 0)), li)"
    using assms by (rule matches_stateless)
  obtain res li' where f: "filterDocuments docs criteria li = (res, li')"
    by (cases "filterDocuments docs criteria li")
  have li': "li' = li" and k: "\<forall>kept. res = Inr kept \<longrightarrow>
      kept = filter (\<lambda>d. fst (matches d criteria (\<lambda>r. 0)) = Inr True) docs"
    using Cons.IH by (simp_all add: f)
  show ?case
  proof (cases "fst (matches d criteria (\<lambda>r. 0))")
    case (Inl e)
    then show ?thesis
      by (simp add: m)
  next
    case (Inr keep)
    show ?thesis
    proof (cases res)
      case (Inl e)
      then show ?thesis
        using Inr by (simp add: m f li')
    next
      case kept: (Inr kept)
      then show ?thesis
        using Inr k by (simp add: m f li')
    qed
  qed
qed

lemma matches_append:
  assumes "stateless before"
  shows "fst (matches d (before @ rest) li) =
    (case fst (matches d before li) of
       Inl e \<Rightarrow> Inl e
     | Inr passed \<Rightarrow> if passed then fst (matches d rest li) else Inr False)"
  using assms
proof (induction before)
  case Nil
  then show ?case by simp
next
  case (Cons fc before)
  obtain field c where fc: "fc = (field, c)" by (cases fc)
  have b: "stateless before"
    using Cons.prems by (simp add: stateless_def)
  note ih = Cons.IH [OF b]
  show ?case
  proof (cases c)
    case (Exact v)
    then show ?thesis
      using ih by (simp add: fc)
  next
    case (Pattern re r)
    then have "\<not> global_or_sticky re"
      using Cons.prems by (simp add: stateless_def fc)
    then have t: "regexp_test re s i = (match_from re s 0 \<noteq> None, i)" for s i
      by (rule regexp_test_stateless)
    show ?thesis
      using ih by (simp add: fc Pattern t Let_def split: sum.splits)
  qed
qed

text \<open>
  C10, as the code has it. Let the field of a regular-expression criterion be absent on
  a document: the document has no such property and the name is not one that objects
  inherit from \<open>Object.prototype\<close>. Then the expression is tested against the string
  \<open>undefined\<close>, at the expression's \<open>lastIndex\<close> when it has the flag \<open>g\<close> or \<open>y\<close>.
  When no expression of the criteria has the flag \<open>g\<close> or \<open>y\<close> and \<open>filterDocuments\<close>
  returns, the document is among the documents kept exactly when the expression
  matches \<open>"undefined"\<close> and the document passes the other criteria; with that
  criterion alone it is kept exactly when the expression matches \<open>"undefined"\<close>; and
  no \<open>lastIndex\<close> changes.
\<close>

theorem filterDocuments_absent_pattern:
  assumes "field \<notin> set (obj_keys document)" and "field \<notin> set object_prototype_names"
    and "\<not> global_or_sticky re" and "stateless before" and "stateless rest"
  shows "(\<forall>kept. fst (filterDocuments docs (before @ (field, Pattern re r) # rest) lastIndex) = Inr kept \<longrightarrow>
           (document \<in> set kept \<longleftrightarrow>
              document \<in> set docs
              \<and> fst (matches document before lastIndex) = Inr True
              \<and> match_from re ''undefined'' 0 \<noteq> None
              \<and> fst (matches document rest lastIndex) = Inr True))
    \<and> (\<forall>kept. fst (filterDocuments docs [(field, Pattern re r)] lastIndex) = Inr kept \<longrightarrow>
           (document \<in> set kept \<longleftrightarrow> match_from re ''undefined'' 0 \<noteq> None \<and> document \<in> set docs))
    \<and> snd (filterDocuments docs (before @ (field, Pattern re r) # rest) lastIndex) = lastIndex
    \<and> matches document [(field, Pattern anyRe r)] lastIndex =
         (Inr (fst (regexp_test anyRe ''undefined'' (lastIndex r))),
          lastIndex(r := snd (regexp_test anyRe ''undefined'' (lastIndex r))))"
proof -
  have u: "js_get document field = Value JUndefined"
    using assms(1,2) by (rule js_get_absent)
  have s: "read_to_string (Value JUndefined) = Inr ''undefined''"
    by (simp add: read_to_string_def)
  have t: "regexp_test re s i = (match_from re s 0 \<noteq> None, i)" for s i
    using assms(3) by (rule regexp_test_stateless)
  have one: "stateless [(field, Pattern re r)]"
    using assms(3) by (simp add: stateless_def)
  have tail: "stateless ((field, Pattern re r) # rest)"
    using assms(3,5) by (simp add: stateless_def)
  have all: "stateless (before @ (field, Pattern re r) # rest)"
    using assms(4) tail by (simp add: stateless_def)
  let ?z = "\<lambda>r. 0 :: nat"
  have z: "?z(r := 0) = ?z"
    by auto
  have fz: "fst (matches document c lastIndex) = fst (matches document c ?z)" if "stateless c" for c
    using matches_stateless [OF that, of document lastIndex] by simp
  have p: "fst (matches document ((field, Pattern re r) # rest) ?z) =
      (if match_from re ''undefined'' 0 \<noteq> None then fst (matches document rest ?z) else Inr False)"
    using u by (simp add: s t z Let_def)
  have m: "fst (matches document (before @ (field, Pattern re r) # rest) ?z) = Inr True \<longleftrightarrow>
      fst (matches document before ?z) = Inr True
      \<and> match_from re ''undefined'' 0 \<noteq> None
      \<and> fst (matches document rest ?z) = Inr True"
    unfolding matches_append [OF assms(4)] p by (auto split: sum.splits)
  have a: "document \<in> set kept \<longleftrightarrow>
              document \<in> set docs
              \<and> fst (matches document before lastIndex) = Inr True
              \<and> match_from re ''undefined'' 0 \<noteq> None
              \<and> fst (matches document rest lastIndex) = Inr True"
    if "fst (filterDocuments docs (before @ (field, Pattern re r) # rest) lastIndex) = Inr kept"
    for kept
  proof -
    have "kept = filter (\<lambda>d. fst (matches d (before @ (field, Pattern re r) # rest) ?z) = Inr True) docs"
      using filterDocuments_stateless [OF all, of docs lastIndex] that by blast
    then show ?thesis
      using m by (simp add: fz [OF assms(4)] fz [OF assms(5)])
  qed
  have p1: "fst (matches document [(field, Pattern re r)] ?z) = Inr True \<longleftrightarrow>
      match_from re ''undefined'' 0 \<noteq> None"
    using u by (simp add: s t z Let_def)
  have b: "document \<in> set kept \<longleftrightarrow> match_from re ''undefined'' 0 \<noteq> None \<and> document \<in> set docs"
    if "fst (filterDocuments docs [(field, Pattern re r)] lastIndex) = Inr kept" for kept
  proof -
    have "kept = filter (\<lambda>d. fst (matches d [(field, Pattern re r)] ?z) = Inr True) docs"
      using filterDocuments_stateless [OF one, of docs lastIndex] that by blast
    then show ?thesis
      using p1 by auto
  qed
  have c: "snd (filterDocuments docs (before @ (field, Pattern re r) # rest) lastIndex) = lastIndex"
    using filterDocuments_stateless [OF all, of docs lastIndex] by (rule conjunct1)
  have d: "matches document [(field, Pattern anyRe r)] lastIndex =
         (Inr (fst (regexp_test anyRe ''undefined'' (lastIndex r))),
          lastIndex(r := snd (regexp_test anyRe ''undefined'' (lastIndex r))))"
    using u by (simp add: s Let_def split: prod.splits)
  from a have a': "\<forall>kept.
      fst (filterDocuments docs (before @ (field, Pattern re r) # rest) lastIndex) = Inr kept \<longrightarrow>
           (document \<in> set kept \<longleftrightarrow>
              document \<in> set docs
              \<and> fst (matches document before lastIndex) = Inr True
              \<and> match_from re ''undefined'' 0 \<noteq> None
              \<and> fst (matches document rest lastIndex) = Inr True)"
    by (intro allI impI)
  from b have b': "\<forall>kept. fst (filterDocuments docs [(field, Pattern re r)] lastIndex) = Inr kept \<longrightarrow>
           (document \<in> set kept \<longleftrightarrow> match_from re ''undefined'' 0 \<noteq> None \<and> document \<in> set docs)"
    by (intro allI impI)
  from a' b' c d show ?thesis
    by (intro conjI)
qed

theorem filterDocuments_absent_pattern_witness:
  "fst (filterDocuments [doc_tagged, doc_scalar, doc_plain, doc_draft]
          [(''tags'', Pattern regexp_undef 0)] (\<lambda>r. 0)) = Inr [doc_plain, doc_draft]
   \<and> match_from regexp_undef ''undefined'' 0 = Some 5
   \<and> doc_plain \<in> set [doc_plain, doc_draft]
   \<and> fst (filterDocuments [doc_tagged, doc_scalar, doc_plain, doc_draft]
          [(''title'', Exact (JStr ''C'')), (''tags'', Pattern regexp_undef 0)] (\<lambda>r. 0)) =
        Inr [doc_plain]
   \<and> doc_draft \<notin> set [doc_plain]"
proof -
  let ?docs = "[doc_tagged, doc_scalar, doc_plain, doc_draft]"
  let ?z = "\<lambda>r. 0 :: nat"
  have h1: "''tags'' \<notin> set (obj_keys doc_plain)" "''tags'' \<notin> set (obj_keys doc_draft)"
    by (simp_all add: doc_plain_def doc_draft_def obj_keys_def)
  have h2: "''tags'' \<notin> set object_prototype_names"
    by (simp add: object_prototype_names_def)
  have h3: "\<not> global_or_sticky regexp_undef"
    by (simp add: regexp_undef_def)
  have h4: "stateless [(''title'', Exact (JStr ''C''))]" "stateless []"
    by (simp_all add: stateless_def)
  have m: "match_from regexp_undef ''undefined'' 0 = Some 5"
    by code_simp
  have ne: "match_from regexp_undef ''undefined'' 0 \<noteq> None"
    by (simp add: m)
  have f: "fst (filterDocuments ?docs [(''tags'', Pattern regexp_undef 0)] ?z) =
      Inr [doc_plain, doc_draft]"
    by code_simp
  have g: "fst (filterDocuments ?docs
      [(''title'', Exact (JStr ''C'')), (''tags'', Pattern regexp_undef 0)] ?z) = Inr [doc_plain]"
    by code_simp
  have in_docs: "doc_plain \<in> set ?docs"
    by simp
  note t1 = filterDocuments_absent_pattern [OF h1(1) h2 h3 h4(2) h4(2),
      where docs = ?docs and r = 0 and lastIndex = ?z, THEN conjunct2, THEN conjunct1,
      rule_format, OF f]
  have p: "doc_plain \<in> set [doc_plain, doc_draft]"
    using ne in_docs by (intro t1 [THEN iffD2] conjI)
  note t2 = filterDocuments_absent_pattern [OF h1(2) h2 h3 h4(1) h4(2),
      where docs = ?docs and r = 0 and lastIndex = ?z, THEN conjunct1,
      unfolded append.simps, rule_format, OF g]
  have n: "fst (matches doc_draft [(''title'', Exact (JStr ''C''))] ?z) \<noteq> Inr True"
    by code_simp
  have q: "doc_draft \<notin> set [doc_plain]"
  proof
    assume "doc_draft \<in> set [doc_plain]"
    then have "doc_draft \<in> set ?docs
        \<and> fst (matches doc_draft [(''title'', Exact (JStr ''C''))] ?z) = Inr True
        \<and> match_from regexp_undef ''undefined'' 0 \<noteq> None
        \<and> fst (matches doc_draft [] ?z) = Inr True"
      by (rule t2 [THEN iffD1])
    then have "fst (matches doc_draft [(''title'', Exact (JStr ''C''))] ?z) = Inr True"
      by (elim conjE)
    with n show False
      by (rule notE)
  qed
  from f m p g q show ?thesis
    by (intro conjI)
qed

text \<open>
  C10 as the spec states it fails for an expression with the flag \<open>g\<close>: of two
  documents that lack the field, \<open>/undef/g\<close> keeps the first and drops the second,
  though the expression matches \<open>"undefined"\<close>, because the second test begins where
  the first match ended. It fails as well for a field named like a member that objects
  inherit: a document with no property \<open>toString\<close> is tested against the text of the
  inherited function, which \<open>/undef/\<close> does not match.
\<close>

theorem filterDocuments_global_counterexample:
  "fst (filterDocuments [doc_plain, doc_draft] [(''tags'', Pattern regexp_undef_g 0)] (\<lambda>r. 0)) =
     Inr [doc_plain]
   \<and> match_from regexp_undef_g ''undefined'' 0 = Some 5
   \<and> ''tags'' \<notin> set (obj_keys doc_draft)
   \<and> js_get doc_draft ''tags'' = Value JUndefined
   \<and> fst (filterDocuments [doc_plain] [(''toString'', Pattern regexp_undef 0)] (\<lambda>r. 0)) = Inr []
   \<and> ''toString'' \<notin> set (obj_keys doc_plain)
   \<and> read_to_string (js_get doc_plain ''toString'') =
       Inr ''function toString() { [native code] }''"
  by code_simp

text \<open>
  A value that has no string form makes \<open>filterDocuments\<close> throw when a regular
  expression is tested against it.
\<close>

lemma filterDocuments_unprintable_example:
  "fst (filterDocuments [doc_plain, doc_unprintable] [(''tags'', Pattern regexp_undef 0)] (\<lambda>r. 0)) =
     Inl to_primitive_error"
  by code_simp

subsection \<open>Grouping\<close>

lemma map_of_obj_set: "map_of (obj_set g k v) = (map_of g)(k \<mapsto> v)"
  by (induction g) auto

lemma bucket_obj_set: "bucket (obj_set g k v) k' = (if k' = k then v else bucket g k')"
  by (simp add: bucket_def map_of_obj_set)

lemma map_of_None_keys: "map_of g k = None \<longleftrightarrow> k \<notin> set (obj_keys g)"
  by (simp add: obj_keys_def map_of_eq_None_iff)

lemma group_push_cases:
  "group_push g k d =
     (if k \<in> set (obj_keys g) then Inr (obj_set g k (bucket g k @ [d]))
      else if k \<in> set object_prototype_names then Inl push_error
      else Inr (obj_set g k (bucket g k @ [d])))"
proof (cases "map_of g k")
  case None
  then have nk: "k \<notin> set (obj_keys g)"
    by (simp add: map_of_None_keys)
  show ?thesis
  proof (cases "k \<in> set object_prototype_names")
    case True
    then show ?thesis
      using None nk by (simp add: group_push_def group_get_def)
  next
    case False
    have "obj_set (obj_set g k []) k [d] = obj_set g k [d]"
      by (induction g) auto
    then show ?thesis
      using None nk False
      by (simp add: group_push_def group_get_def map_of_obj_set bucket_def)
  qed
next
  case (Some b)
  then have "k \<in> set (obj_keys g)"
    using map_of_None_keys [of g k] by simp
  then show ?thesis
    using Some by (simp add: group_push_def group_get_def bucket_def)
qed

lemma buckets_obj_set_push:
  "mset (concat (map snd (obj_set g k (bucket g k @ [d])))) = add_mset d (mset (concat (map snd g)))"
proof (induction g)
  case Nil
  then show ?case by (simp add: bucket_def)
next
  case (Cons kb g)
  obtain k' b where kb: "kb = (k', b)" by (cases kb)
  show ?case
  proof (cases "k' = k")
    case True
    then show ?thesis by (simp add: kb bucket_def)
  next
    case False
    then have "bucket (kb # g) k = bucket g k"
      by (simp add: kb bucket_def)
    then show ?thesis
      using False Cons.IH by (simp add: kb)
  qed
qed

lemma group_push_inv:
  assumes "groups_inv g" and "group_push g k d = Inr g'"
  shows "groups_inv g'"
    and "bucket g' k' = (if k' = k then bucket g k @ [d] else bucket g k')"
    and "set (obj_keys g') = insert k (set (obj_keys g))"
    and "mset (concat (map snd g')) = add_mset d (mset (concat (map snd g)))"
    and "k \<notin> set object_prototype_names"
proof -
  have np: "k \<notin> set object_prototype_names"
    using assms by (auto simp: group_push_cases groups_inv_def split: if_splits)
  have g': "g' = obj_set g k (bucket g k @ [d])"
    using assms(2) by (simp add: group_push_cases split: if_splits)
  show "k \<notin> set object_prototype_names"
    by (rule np)
  show b: "bucket g' k' = (if k' = k then bucket g k @ [d] else bucket g k')" for k'
    by (simp add: g' bucket_obj_set)
  show ks: "set (obj_keys g') = insert k (set (obj_keys g))"
    by (simp add: g' keys_obj_set)
  show "mset (concat (map snd g')) = add_mset d (mset (concat (map snd g)))"
    unfolding g' by (rule buckets_obj_set_push)
  have "distinct (obj_keys g')"
    using assms(1) by (simp add: g' groups_inv_def distinct_obj_set)
  moreover have "set (obj_keys g') \<inter> set object_prototype_names = {}"
    using assms(1) np by (simp add: ks groups_inv_def)
  moreover have "\<forall>k' \<in> set (obj_keys g'). bucket g' k' \<noteq> []"
    using assms(1) by (simp add: ks b groups_inv_def)
  ultimately show "groups_inv g'"
    by (simp add: groups_inv_def)
qed

lemma group_push_returns:
  assumes "groups_inv g"
  shows "(\<exists>g'. group_push g k d = Inr g') \<longleftrightarrow> k \<notin> set object_prototype_names"
  using assms by (auto simp: group_push_cases groups_inv_def)

lemma group_push_error: "group_push g k d = Inl e \<Longrightarrow> e = push_error"
  by (simp add: group_push_cases split: if_splits)

lemma group_push_all_inv:
  assumes "groups_inv g" and "group_push_all g ks d = Inr g'"
  shows "groups_inv g'
    \<and> (\<forall>k. bucket g' k = bucket g k @ replicate (count_list ks (Inr k)) d)
    \<and> set (obj_keys g') = set (obj_keys g) \<union> {k. Inr k \<in> set ks}
    \<and> mset (concat (map snd g')) = mset (concat (map snd g)) + replicate_mset (length ks) d
    \<and> (\<forall>x \<in> set ks. \<exists>k. x = Inr k \<and> k \<notin> set object_prototype_names)"
  using assms
proof (induction ks arbitrary: g)
  case Nil
  then show ?case by simp
next
  case (Cons x ks)
  obtain k where x: "x = Inr k"
    using Cons.prems(2) by (cases x) simp_all
  obtain g1 where g1: "group_push g k d = Inr g1"
    using Cons.prems(2) x by (cases "group_push g k d") simp_all
  have rest: "group_push_all g1 ks d = Inr g'"
    using Cons.prems(2) x g1 by simp
  note p = group_push_inv [OF Cons.prems(1) g1]
  note ih = Cons.IH [OF p(1) rest]
  have b: "bucket g' k' = bucket g k' @ replicate (count_list (x # ks) (Inr k')) d" for k'
  proof -
    have "bucket g' k' = bucket g1 k' @ replicate (count_list ks (Inr k')) d"
      using ih by blast
    also have "\<dots> = bucket g k' @ replicate (count_list (x # ks) (Inr k')) d"
      by (simp add: p(2) x replicate_append_same)
    finally show ?thesis .
  qed
  have ks: "set (obj_keys g') = set (obj_keys g) \<union> {k. Inr k \<in> set (x # ks)}"
    using ih p(3) x by auto
  have m: "mset (concat (map snd g')) =
      mset (concat (map snd g)) + replicate_mset (length (x # ks)) d"
    using ih p(4) by simp
  have n: "\<forall>y \<in> set (x # ks). \<exists>k. y = Inr k \<and> k \<notin> set object_prototype_names"
    using ih p(5) x by simp
  from ih b ks m n show ?case
    by blast
qed

lemma group_push_all_returns:
  assumes "groups_inv g"
  shows "(\<exists>g'. group_push_all g ks d = Inr g') \<longleftrightarrow>
    (\<forall>x \<in> set ks. \<exists>k. x = Inr k \<and> k \<notin> set object_prototype_names)"
  using assms
proof (induction ks arbitrary: g)
  case Nil
  then show ?case by simp
next
  case (Cons x ks)
  show ?case
  proof (cases x)
    case (Inl e)
    then show ?thesis by simp
  next
    case k: (Inr k)
    show ?thesis
    proof (cases "group_push g k d")
      case (Inl e)
      then have "k \<in> set object_prototype_names"
        using group_push_returns [OF Cons.prems, of k d] by auto
      then show ?thesis
        using Inl k by simp
    next
      case (Inr g1)
      then have "k \<notin> set object_prototype_names"
        using group_push_returns [OF Cons.prems, of k d] by auto
      moreover have "groups_inv g1"
        using Cons.prems Inr by (rule group_push_inv(1))
      ultimately show ?thesis
        using Inr k Cons.IH [of g1] by simp
    qed
  qed
qed

lemma js_to_string_error:
  "js_to_string v = Inl e \<Longrightarrow> e = to_primitive_error"
  "elements_to_strings vs = Inl e \<Longrightarrow> e = to_primitive_error"
  by (induction v and vs rule: js_to_string_elements_to_strings.induct)
    (auto split: sum.splits if_splits)

lemma group_keys_error: "Inl e \<in> set (group_keys d field) \<Longrightarrow> e = to_primitive_error"
  by (auto simp: group_keys_def read_to_string_def js_to_string_error
      split: jsread.splits jsval.splits if_splits)

lemma group_push_all_error:
  assumes "group_push_all g ks d = Inl e"
  shows "e = push_error \<or> Inl e \<in> set ks"
  using assms
proof (induction ks arbitrary: g)
  case Nil
  then show ?case by simp
next
  case (Cons x ks)
  show ?case
  proof (cases x)
    case (Inl e')
    then show ?thesis
      using Cons.prems by simp
  next
    case k: (Inr k)
    show ?thesis
    proof (cases "group_push g k d")
      case (Inl e')
      then have "e' = push_error"
        by (rule group_push_error)
      then show ?thesis
        using Cons.prems k Inl by simp
    next
      case (Inr g1)
      then have "group_push_all g1 ks d = Inl e"
        using Cons.prems k by simp
      from Cons.IH [OF this] show ?thesis
        by auto
    qed
  qed
qed

lemma gropDocuments_from_error:
  assumes "gropDocuments_from g docs field = Inl e"
  shows "e = push_error \<or> e = to_primitive_error"
  using assms
proof (induction docs arbitrary: g)
  case Nil
  then show ?case by simp
next
  case (Cons d docs)
  show ?case
  proof (cases "group_push_all g (group_keys d field) d")
    case (Inl e')
    then have "e' = e"
      using Cons.prems by simp
    then show ?thesis
      using group_push_all_error [OF Inl] group_keys_error by blast
  next
    case (Inr g1)
    then have "gropDocuments_from g1 docs field = Inl e"
      using Cons.prems by simp
    then show ?thesis
      by (rule Cons.IH)
  qed
qed

lemma gropDocuments_from_inv:
  assumes "groups_inv g" and "gropDocuments_from g docs field = Inr g'"
  shows "groups_inv g'
    \<and> (\<forall>k. bucket g' k =
          bucket g k @ concat (map (\<lambda>d. replicate (count_list (group_keys d field) (Inr k)) d) docs))
    \<and> set (obj_keys g') = set (obj_keys g) \<union> (\<Union>d \<in> set docs. {k. Inr k \<in> set (group_keys d field)})
    \<and> mset (concat (map snd g')) =
        mset (concat (map snd g))
        + (\<Sum>d\<leftarrow>docs. replicate_mset (length (group_keys d field)) d)"
  using assms
proof (induction docs arbitrary: g)
  case Nil
  then show ?case by simp
next
  case (Cons d docs)
  obtain g1 where g1: "group_push_all g (group_keys d field) d = Inr g1"
    using Cons.prems(2) by (cases "group_push_all g (group_keys d field) d") simp_all
  have rest: "gropDocuments_from g1 docs field = Inr g'"
    using Cons.prems(2) g1 by simp
  note p = group_push_all_inv [OF Cons.prems(1) g1]
  have i1: "groups_inv g1"
    using p by blast
  note ih = Cons.IH [OF i1 rest]
  have b: "bucket g' k =
      bucket g k @ concat (map (\<lambda>d. replicate (count_list (group_keys d field) (Inr k)) d) (d # docs))"
    for k
  proof -
    have "bucket g' k =
        bucket g1 k @ concat (map (\<lambda>d. replicate (count_list (group_keys d field) (Inr k)) d) docs)"
      using ih by blast
    moreover have "bucket g1 k = bucket g k @ replicate (count_list (group_keys d field) (Inr k)) d"
      using p by blast
    ultimately show ?thesis
      by simp
  qed
  have ks: "set (obj_keys g') =
      set (obj_keys g) \<union> (\<Union>d \<in> set (d # docs). {k. Inr k \<in> set (group_keys d field)})"
  proof -
    have "set (obj_keys g') =
        set (obj_keys g1) \<union> (\<Union>d \<in> set docs. {k. Inr k \<in> set (group_keys d field)})"
      using ih by blast
    moreover have "set (obj_keys g1) = set (obj_keys g) \<union> {k. Inr k \<in> set (group_keys d field)}"
      using p by blast
    ultimately show ?thesis
      by auto
  qed
  have m: "mset (concat (map snd g')) =
        mset (concat (map snd g))
        + (\<Sum>d\<leftarrow>(d # docs). replicate_mset (length (group_keys d field)) d)"
  proof -
    have "mset (concat (map snd g')) = mset (concat (map snd g1))
        + (\<Sum>d\<leftarrow>docs. replicate_mset (length (group_keys d field)) d)"
      using ih by blast
    moreover have "mset (concat (map snd g1)) =
        mset (concat (map snd g)) + replicate_mset (length (group_keys d field)) d"
      using p by blast
    ultimately show ?thesis
      by simp
  qed
  from ih b ks m show ?case
    by blast
qed

lemma gropDocuments_from_returns:
  assumes "groups_inv g"
  shows "(\<exists>g'. gropDocuments_from g docs field = Inr g') \<longleftrightarrow>
    (\<forall>d \<in> set docs. \<forall>x \<in> set (group_keys d field).
        \<exists>k. x = Inr k \<and> k \<notin> set object_prototype_names)"
  using assms
proof (induction docs arbitrary: g)
  case Nil
  then show ?case by simp
next
  case (Cons d docs)
  show ?case
  proof (cases "group_push_all g (group_keys d field) d")
    case (Inl e)
    then have "\<not> (\<forall>x \<in> set (group_keys d field). \<exists>k. x = Inr k \<and> k \<notin> set object_prototype_names)"
      using group_push_all_returns [OF Cons.prems, of "group_keys d field" d] by auto
    then show ?thesis
      using Inl by simp
  next
    case (Inr g1)
    then have "\<forall>x \<in> set (group_keys d field). \<exists>k. x = Inr k \<and> k \<notin> set object_prototype_names"
      using group_push_all_returns [OF Cons.prems, of "group_keys d field" d] by auto
    moreover have "groups_inv g1"
      using group_push_all_inv [OF Cons.prems Inr] by blast
    ultimately show ?thesis
      using Inr Cons.IH [of g1] by simp
  qed
qed

lemma groups_inv_empty: "groups_inv []"
  by (simp add: groups_inv_def obj_keys_def)

lemma group_keys_count:
  "count_list (group_keys d field) (Inr key) =
     (case js_get d field of
        Value (JArr subValues) \<Rightarrow> count_list (map js_to_string subValues) (Inr key)
      | value \<Rightarrow> if read_to_string value = Inr key then 1 else 0)"
  by (simp add: group_keys_def split: jsread.splits jsval.splits)

lemma group_keys_set:
  "{key. Inr key \<in> set (group_keys d field)} =
     (case js_get d field of
        Value (JArr subValues) \<Rightarrow> {key. Inr key \<in> set (map js_to_string subValues)}
      | value \<Rightarrow> {key. read_to_string value = Inr key})"
  by (auto simp: group_keys_def split: jsread.splits jsval.splits)

lemma group_keys_length:
  "length (group_keys d field) =
     (case js_get d field of Value (JArr subValues) \<Rightarrow> length subValues | value \<Rightarrow> 1)"
  by (simp add: group_keys_def split: jsread.splits jsval.splits)

lemma group_keys_all:
  "(\<forall>x \<in> set (group_keys d field). \<exists>k. x = Inr k \<and> k \<notin> set object_prototype_names) \<longleftrightarrow>
     (case js_get d field of
        Value (JArr subValues) \<Rightarrow>
          (\<forall>v \<in> set subValues. \<exists>key. js_to_string v = Inr key \<and> key \<notin> set object_prototype_names)
      | value \<Rightarrow> (\<exists>key. read_to_string value = Inr key \<and> key \<notin> set object_prototype_names))"
  by (auto simp: group_keys_def split: jsread.splits jsval.splits)

lemma in_concat_replicate:
  "d \<in> set (concat (map (\<lambda>x. replicate (n x) x) xs)) \<longleftrightarrow> d \<in> set xs \<and> 0 < n d"
  by (induction xs) auto

text \<open>
  C6, as the code has it. Let \<open>value\<close> be what \<open>document[field]\<close> reads: the
  document's property, else the member that objects inherit from \<open>Object.prototype\<close>
  under that name, else \<open>undefined\<close>. A document whose value is a sequence is filed
  under the string form of each element, once per occurrence of that string among the
  elements, and so in no bucket when the sequence is empty. A document with any other
  value is filed once, under the string form of the value: under \<open>undefined\<close> when
  the field is absent, and under the text of the inherited member when the field is
  named like one. Whenever \<open>gropDocuments\<close> returns, the bucket of a key holds these
  documents in the order of the input; the keys of the groups are exactly the keys of
  the documents; and the multiset union of the buckets is the input documents, a
  document with a sequence taken once per element and every other document once. It
  returns exactly when every key has a string form and none is a name that objects
  inherit from \<open>Object.prototype\<close>; otherwise it throws a \<open>TypeError\<close>.
\<close>

theorem gropDocuments_buckets:
  "(\<forall>grouped. gropDocuments docs field = Inr grouped \<longrightarrow>
      (\<forall>key. bucket grouped key =
         concat (map (\<lambda>d. replicate
           (case js_get d field of
              Value (JArr subValues) \<Rightarrow> count_list (map js_to_string subValues) (Inr key)
            | value \<Rightarrow> if read_to_string value = Inr key then 1 else 0) d) docs))
    \<and> distinct (obj_keys grouped)
    \<and> set (obj_keys grouped) =
        (\<Union>d \<in> set docs. case js_get d field of
             Value (JArr subValues) \<Rightarrow> {key. Inr key \<in> set (map js_to_string subValues)}
           | value \<Rightarrow> {key. read_to_string value = Inr key})
    \<and> mset (concat (map snd grouped)) =
        (\<Sum>d\<leftarrow>docs. replicate_mset
           (case js_get d field of Value (JArr subValues) \<Rightarrow> length subValues | value \<Rightarrow> 1) d)
    \<and> (\<forall>d \<in> set docs. field \<notin> set (obj_keys d) \<and> field \<notin> set object_prototype_names \<longrightarrow>
          d \<in> set (bucket grouped ''undefined''))
    \<and> (\<forall>d \<in> set docs. field \<notin> set (obj_keys d) \<and> field \<in> set object_prototype_names \<longrightarrow>
          (\<exists>text. read_to_string (Member field) = Inr text \<and> d \<in> set (bucket grouped text)))
    \<and> (\<forall>d \<in> set docs. js_get d field = Value (JArr []) \<longrightarrow>
          (\<forall>key. d \<notin> set (bucket grouped key))))
   \<and> ((\<exists>grouped. gropDocuments docs field = Inr grouped) \<longleftrightarrow>
        (\<forall>d \<in> set docs.
           case js_get d field of
             Value (JArr subValues) \<Rightarrow>
               (\<forall>v \<in> set subValues.
                  \<exists>key. js_to_string v = Inr key \<and> key \<notin> set object_prototype_names)
           | value \<Rightarrow>
               (\<exists>key. read_to_string value = Inr key \<and> key \<notin> set object_prototype_names)))
   \<and> (\<forall>e. gropDocuments docs field = Inl e \<longrightarrow> e = push_error \<or> e = to_primitive_error)"
proof -
  let ?n = "\<lambda>key d. case js_get d field of
              Value (JArr subValues) \<Rightarrow> count_list (map js_to_string subValues) (Inr key)
            | value \<Rightarrow> if read_to_string value = Inr key then 1 else 0"
  let ?ks = "\<lambda>d. case js_get d field of
             Value (JArr subValues) \<Rightarrow> {key. Inr key \<in> set (map js_to_string subValues)}
           | value \<Rightarrow> {key. read_to_string value = Inr key}"
  let ?len = "\<lambda>d. case js_get d field of Value (JArr subValues) \<Rightarrow> length subValues | value \<Rightarrow> 1"
  let ?ok = "\<lambda>d. case js_get d field of
             Value (JArr subValues) \<Rightarrow>
               (\<forall>v \<in> set subValues.
                  \<exists>key. js_to_string v = Inr key \<and> key \<notin> set object_prototype_names)
           | value \<Rightarrow>
               (\<exists>key. read_to_string value = Inr key \<and> key \<notin> set object_prototype_names)"
  have a: "(\<forall>key. bucket grouped key = concat (map (\<lambda>d. replicate (?n key d) d) docs))
    \<and> distinct (obj_keys grouped)
    \<and> set (obj_keys grouped) = (\<Union>d \<in> set docs. ?ks d)
    \<and> mset (concat (map snd grouped)) = (\<Sum>d\<leftarrow>docs. replicate_mset (?len d) d)
    \<and> (\<forall>d \<in> set docs. field \<notin> set (obj_keys d) \<and> field \<notin> set object_prototype_names \<longrightarrow>
          d \<in> set (bucket grouped ''undefined''))
    \<and> (\<forall>d \<in> set docs. field \<notin> set (obj_keys d) \<and> field \<in> set object_prototype_names \<longrightarrow>
          (\<exists>text. read_to_string (Member field) = Inr text \<and> d \<in> set (bucket grouped text)))
    \<and> (\<forall>d \<in> set docs. js_get d field = Value (JArr []) \<longrightarrow>
          (\<forall>key. d \<notin> set (bucket grouped key)))"
    if r: "gropDocuments docs field = Inr grouped" for grouped
  proof -
    have r': "gropDocuments_from [] docs field = Inr grouped"
      using r by (simp add: gropDocuments_def)
    note i = gropDocuments_from_inv [OF groups_inv_empty r']
    note i1 = i [THEN conjunct1]
    note i2 = i [THEN conjunct2, THEN conjunct1, rule_format]
    note i3 = i [THEN conjunct2, THEN conjunct2, THEN conjunct1]
    note i4 = i [THEN conjunct2, THEN conjunct2, THEN conjunct2]
    have b: "bucket grouped key = concat (map (\<lambda>d. replicate (?n key d) d) docs)" for key
    proof -
      have "bucket grouped key = bucket [] key @
          concat (map (\<lambda>d. replicate (count_list (group_keys d field) (Inr key)) d) docs)"
        using i2 .
      then show ?thesis
        by (simp add: bucket_def group_keys_count)
    qed
    have d: "distinct (obj_keys grouped)"
      using i1 by (simp add: groups_inv_def)
    have ks: "set (obj_keys grouped) = (\<Union>d \<in> set docs. ?ks d)"
    proof -
      have "set (obj_keys grouped) =
          set (obj_keys ([] :: (string \<times> jsobj list) list))
          \<union> (\<Union>d \<in> set docs. {k. Inr k \<in> set (group_keys d field)})"
        using i3 .
      then show ?thesis
        by (simp add: obj_keys_def group_keys_set)
    qed
    have m: "mset (concat (map snd grouped)) = (\<Sum>d\<leftarrow>docs. replicate_mset (?len d) d)"
    proof -
      have "mset (concat (map snd grouped)) =
          mset (concat (map snd ([] :: (string \<times> jsobj list) list)))
          + (\<Sum>d\<leftarrow>docs. replicate_mset (length (group_keys d field)) d)"
        using i4 .
      then show ?thesis
        by (simp add: group_keys_length)
    qed
    have mem: "d \<in> set (bucket grouped key) \<longleftrightarrow> d \<in> set docs \<and> 0 < ?n key d" for d key
      unfolding b by (rule in_concat_replicate)
    have u: "d \<in> set (bucket grouped ''undefined'')"
      if "d \<in> set docs" and "field \<notin> set (obj_keys d) \<and> field \<notin> set object_prototype_names" for d
    proof -
      have "js_get d field = Value JUndefined"
        using that(2) by (simp add: js_get_absent)
      then have "0 < ?n ''undefined'' d"
        by (simp add: read_to_string_def)
      with that(1) show ?thesis
        unfolding mem by (rule conjI)
    qed
    have h: "\<exists>text. read_to_string (Member field) = Inr text \<and> d \<in> set (bucket grouped text)"
      if "d \<in> set docs" and "field \<notin> set (obj_keys d) \<and> field \<in> set object_prototype_names" for d
    proof -
      obtain key where t: "read_to_string (Member field) = Inr key"
        by (simp add: read_to_string_def)
      have "js_get d field = Member field"
        using that(2) by (simp add: js_get_inherited)
      then have "0 < ?n key d"
        by (simp add: t)
      with that(1) have "d \<in> set (bucket grouped key)"
        unfolding mem by (rule conjI)
      with t show ?thesis
        by blast
    qed
    have e: "d \<notin> set (bucket grouped key)" if "js_get d field = Value (JArr [])" for d key
      unfolding mem using that by simp
    from u have u': "\<forall>d \<in> set docs.
          field \<notin> set (obj_keys d) \<and> field \<notin> set object_prototype_names \<longrightarrow>
          d \<in> set (bucket grouped ''undefined'')"
      by (intro ballI impI)
    from h have h': "\<forall>d \<in> set docs.
          field \<notin> set (obj_keys d) \<and> field \<in> set object_prototype_names \<longrightarrow>
          (\<exists>text. read_to_string (Member field) = Inr text \<and> d \<in> set (bucket grouped text))"
      by (intro ballI impI)
    from e have e': "\<forall>d \<in> set docs. js_get d field = Value (JArr []) \<longrightarrow>
          (\<forall>key. d \<notin> set (bucket grouped key))"
      by (intro ballI impI allI)
    from b have b': "\<forall>key. bucket grouped key = concat (map (\<lambda>d. replicate (?n key d) d) docs)"
      by (intro allI)
    from b' d ks m u' h' e' show ?thesis
      by (intro conjI)
  qed
  have "(\<exists>grouped. gropDocuments docs field = Inr grouped) \<longleftrightarrow>
        (\<forall>d \<in> set docs. \<forall>x \<in> set (group_keys d field).
            \<exists>k. x = Inr k \<and> k \<notin> set object_prototype_names)"
    unfolding gropDocuments_def using groups_inv_empty by (rule gropDocuments_from_returns)
  then have t: "(\<exists>grouped. gropDocuments docs field = Inr grouped) \<longleftrightarrow> (\<forall>d \<in> set docs. ?ok d)"
    unfolding group_keys_all .
  have f: "\<forall>e. gropDocuments docs field = Inl e \<longrightarrow> e = push_error \<or> e = to_primitive_error"
    unfolding gropDocuments_def using gropDocuments_from_error by blast
  from a have a': "\<forall>grouped. gropDocuments docs field = Inr grouped \<longrightarrow>
      (\<forall>key. bucket grouped key = concat (map (\<lambda>d. replicate (?n key d) d) docs))
    \<and> distinct (obj_keys grouped)
    \<and> set (obj_keys grouped) = (\<Union>d \<in> set docs. ?ks d)
    \<and> mset (concat (map snd grouped)) = (\<Sum>d\<leftarrow>docs. replicate_mset (?len d) d)
    \<and> (\<forall>d \<in> set docs. field \<notin> set (obj_keys d) \<and> field \<notin> set object_prototype_names \<longrightarrow>
          d \<in> set (bucket grouped ''undefined''))
    \<and> (\<forall>d \<in> set docs. field \<notin> set (obj_keys d) \<and> field \<in> set object_prototype_names \<longrightarrow>
          (\<exists>text. read_to_string (Member field) = Inr text \<and> d \<in> set (bucket grouped text)))
    \<and> (\<forall>d \<in> set docs. js_get d field = Value (JArr []) \<longrightarrow>
          (\<forall>key. d \<notin> set (bucket grouped key)))"
    by (intro allI impI)
  from a' t f show ?thesis
    by (intro conjI)
qed

theorem gropDocuments_buckets_witness:
  "\<exists>grouped. gropDocuments [doc_tagged, doc_scalar, doc_plain, doc_untagged] ''tags'' = Inr grouped
     \<and> bucket grouped ''js'' = [doc_tagged, doc_scalar]
     \<and> bucket grouped ''css'' = [doc_tagged]
     \<and> bucket grouped ''undefined'' = [doc_plain]
     \<and> bucket grouped ''html'' = []
     \<and> set (obj_keys grouped) = {''js'', ''css'', ''undefined''}"
proof -
  let ?docs = "[doc_tagged, doc_scalar, doc_plain, doc_untagged]"
  let ?g = "[(''js'', [doc_tagged, doc_scalar]), (''css'', [doc_tagged]),
      (''undefined'', [doc_plain])]"
  have r: "gropDocuments ?docs ''tags'' = Inr ?g"
    by code_simp
  note t = gropDocuments_buckets [of ?docs "''tags''", THEN conjunct1, rule_format, OF r]
  have b: "bucket ?g key =
      concat (map (\<lambda>d. replicate
           (case js_get d ''tags'' of
              Value (JArr subValues) \<Rightarrow> count_list (map js_to_string subValues) (Inr key)
            | value \<Rightarrow> if read_to_string value = Inr key then 1 else 0) d) ?docs)" for key
    using t [THEN conjunct1] by (rule spec)
  have 1: "bucket ?g ''js'' = [doc_tagged, doc_scalar]"
    unfolding b by code_simp
  have 2: "bucket ?g ''css'' = [doc_tagged]"
    unfolding b by code_simp
  have 3: "bucket ?g ''undefined'' = [doc_plain]"
    unfolding b by code_simp
  have 4: "bucket ?g ''html'' = []"
    unfolding b by code_simp
  have 5: "set (obj_keys ?g) = {''js'', ''css'', ''undefined''}"
    by (simp add: obj_keys_def)
  from r 1 2 3 4 5 show ?thesis
    by (intro exI [of _ ?g] conjI)
qed

text \<open>
  C6 as the spec states it fails on a document that lacks the field: it is filed under
  the key \<open>undefined\<close>, so the union of the buckets is not the input restricted to the
  documents on which the field is defined.
\<close>

theorem gropDocuments_undefined_counterexample:
  "gropDocuments [doc_tagged, doc_plain] ''tags'' =
     Inr [(''js'', [doc_tagged]), (''css'', [doc_tagged]), (''undefined'', [doc_plain])]
   \<and> obj_get doc_plain ''tags'' = JUndefined
   \<and> obj_get doc_tagged ''tags'' = JArr [JStr ''js'', JStr ''css'']"
  by code_simp

text \<open>
  Grouping by a field named like an inherited member files a document that has no such
  property under the text of the member. A value that is itself such a name makes
  \<open>gropDocuments\<close> throw, and so does a value that has no string form.
\<close>

lemma gropDocuments_inherited_examples:
  "gropDocuments [doc_plain] ''constructor'' =
     Inr [(''function Object() { [native code] }'', [doc_plain])]
   \<and> gropDocuments [doc_plain, doc_reserved] ''tags'' = Inl push_error
   \<and> gropDocuments [doc_plain, doc_unprintable] ''tags'' = Inl to_primitive_error"
  by code_simp

subsection \<open>The store\<close>







subsection \<open>Grouping in the store\<close>










subsection \<open>Pagination in the store\<close>


subsection \<open>The queries leave their input alone\<close>








end
